theory Spec2Isabelle
  imports Complex_Main "HOL-Library.AList"
begin

section \<open>Python values, dictionaries and exceptions\<close>

text \<open>
  The exceptions that \<^verbatim>\<open>hyperconvo.py\<close> can raise: a failed \<^verbatim>\<open>assert\<close>, an attribute
  access on \<^verbatim>\<open>None\<close>, a missing dictionary key, a numpy reduction of an empty array,
  and the explicit \<^verbatim>\<open>RuntimeError\<close> of the graph builder.
\<close>

datatype error = AssertionError | AttributeError | KeyError | ValueError | RuntimeError

text \<open>
  A dictionary is an association list in insertion order with distinct keys:
  \<^verbatim>\<open>d[k] = v\<close> is \<open>AList.update k v d\<close> (an existing key keeps its position, a new key
  goes to the end), \<^verbatim>\<open>k in d\<close> is \<open>k \<in> set (keys d)\<close>, \<^verbatim>\<open>d[k]\<close> is \<open>map_of d k\<close> with
  \<open>None\<close> standing for the \<^verbatim>\<open>KeyError\<close>, and iterating \<^verbatim>\<open>d\<close> or \<^verbatim>\<open>d.items()\<close> walks the list.
\<close>

abbreviation keys :: "('k \<times> 'a) list \<Rightarrow> 'k list" where
  "keys d \<equiv> map fst d"

text \<open>\<^verbatim>\<open>dict(pairs)\<close>: the pairs are stored one after the other.\<close>

definition dict_of :: "('k \<times> 'a) list \<Rightarrow> ('k \<times> 'a) list" where
  "dict_of ps = foldl (\<lambda>d (k, v). AList.update k v d) [] ps"

text \<open>
  The payload of an edge and the metadata of a node are dictionaries with string keys
  (\<^verbatim>\<open>{'timestamp': t}\<close>, \<^verbatim>\<open>ut.__dict__\<close>); their values are opaque to the graph.
\<close>

datatype pyval = PNone | PInt int | PStr string

type_synonym info = "(string \<times> pyval) list"

text \<open>
  A Python \<^verbatim>\<open>set\<close> is a duplicate-free list. Python iterates a set in an order fixed by
  the hashes of its elements; the model iterates in the order of first insertion.
\<close>

definition set_add :: "'a list \<Rightarrow> 'a \<Rightarrow> 'a list" where
  "set_add s x = (if x \<in> set s then s else s @ [x])"

definition pyset :: "'a list \<Rightarrow> 'a list" where
  "pyset xs = foldl set_add [] xs"

text \<open>A comprehension whose body can raise: the first exception ends it.\<close>

fun mapE :: "('a \<Rightarrow> error + 'b) \<Rightarrow> 'a list \<Rightarrow> error + 'b list" where
  "mapE f [] = Inr []"
| "mapE f (x # xs) =
     (case f x of
        Inl e \<Rightarrow> Inl e
      | Inr y \<Rightarrow> (case mapE f xs of Inl e \<Rightarrow> Inl e | Inr ys \<Rightarrow> Inr (y # ys)))"

fun concatE :: "('a \<Rightarrow> error + 'b list) \<Rightarrow> 'a list \<Rightarrow> error + 'b list" where
  "concatE f [] = Inr []"
| "concatE f (x # xs) =
     (case f x of
        Inl e \<Rightarrow> Inl e
      | Inr ys \<Rightarrow> (case concatE f xs of Inl e \<Rightarrow> Inl e | Inr zs \<Rightarrow> Inr (ys @ zs)))"

section \<open>The class \<^verbatim>\<open>Hypergraph\<close>\<close>

text \<open>
  The four attributes set by \<^verbatim>\<open>__init__\<close>. A vertex identity is any hashable value, here
  the type \<open>'v\<close>. \<open>nodes\<close> maps a node to its metadata, \<open>hypernodes\<close> maps a
  hypernode to its set of nodes, \<open>adj_out\<close> and \<open>adj_in\<close> map a vertex to the
  dictionary from a neighbour to the list of edge payloads.
\<close>

record 'v hypergraph =
  nodes :: "('v \<times> info) list"
  hypernodes :: "('v \<times> 'v list) list"
  adj_out :: "('v \<times> ('v \<times> info list) list) list"
  adj_in :: "('v \<times> ('v \<times> info list) list) list"

definition Hypergraph :: "'v hypergraph" where
  "Hypergraph = \<lparr>nodes = [], hypernodes = [], adj_out = [], adj_in = []\<rparr>"

text \<open>
  A method mutates the graph in place and returns nothing or raises. \<open>Ok g\<close> is a
  normal return with the graph as the method left it; \<open>Raise e g\<close> is the exception
  \<open>e\<close>, with the graph as it was when the exception was raised.
\<close>

datatype 'v outcome = Ok "'v hypergraph" | Raise error "'v hypergraph"

definition add_node :: "'v hypergraph \<Rightarrow> 'v \<Rightarrow> info option \<Rightarrow> 'v outcome" where
  "add_node g u info =
     Ok (g\<lparr>nodes := AList.update u (case info of None \<Rightarrow> [] | Some i \<Rightarrow> i) (nodes g),
           adj_out := AList.update u [] (adj_out g),
           adj_in := AList.update u [] (adj_in g)\<rparr>)"

text \<open>The parameter \<^verbatim>\<open>info\<close> of \<^verbatim>\<open>add_hypernode\<close> is not used by its body.\<close>

definition add_hypernode :: "'v hypergraph \<Rightarrow> 'v \<Rightarrow> 'v list \<Rightarrow> info option \<Rightarrow> 'v outcome" where
  "add_hypernode g name ns info =
     Ok (g\<lparr>hypernodes := AList.update name (pyset ns) (hypernodes g),
           adj_out := AList.update name [] (adj_out g),
           adj_in := AList.update name [] (adj_in g)\<rparr>)"

text \<open>\<^verbatim>\<open>u in self.nodes or u in self.hypernodes\<close>\<close>

definition registered :: "'v hypergraph \<Rightarrow> 'v \<Rightarrow> bool" where
  "registered g u \<longleftrightarrow> u \<in> set (keys (nodes g)) \<or> u \<in> set (keys (hypernodes g))"

text \<open>\<^verbatim>\<open>a[u][v].append(i)\<close>, once both keys are known to be present.\<close>

definition append_at ::
  "('v \<times> ('v \<times> info list) list) list \<Rightarrow> 'v \<Rightarrow> 'v \<Rightarrow> info \<Rightarrow> ('v \<times> ('v \<times> info list) list) list" where
  "append_at a u v i = AList.map_entry u (AList.map_entry v (\<lambda>l. l @ [i])) a"

text \<open>
  \<^verbatim>\<open>add_edge\<close>, statement by statement: the two assertions on the endpoints, the
  assertion on the payload of a hyperedge (\<^verbatim>\<open>info.keys()\<close> on \<^verbatim>\<open>None\<close> is an
  \<^verbatim>\<open>AttributeError\<close>), the two \<^verbatim>\<open>if ... not in ...\<close> that create the empty lists, the
  default payload, and the two \<^verbatim>\<open>append\<close>.
\<close>

definition add_edge :: "'v hypergraph \<Rightarrow> 'v \<Rightarrow> 'v \<Rightarrow> info option \<Rightarrow> 'v outcome" where
  "add_edge g u v info =
     (if \<not> registered g u then Raise AssertionError g
      else if \<not> registered g v then Raise AssertionError g
      else if u \<in> set (keys (hypernodes g)) \<and> v \<in> set (keys (hypernodes g)) \<and> info = None
        then Raise AttributeError g
      else if u \<in> set (keys (hypernodes g)) \<and> v \<in> set (keys (hypernodes g)) \<and> info = Some []
        then Raise AssertionError g
      else
        (case map_of (adj_out g) u of
           None \<Rightarrow> Raise KeyError g
         | Some d \<Rightarrow>
             let g1 = (if v \<in> set (keys d) then g
                       else g\<lparr>adj_out := AList.update u (AList.update v [] d) (adj_out g)\<rparr>)
             in (case map_of (adj_in g1) v of
                   None \<Rightarrow> Raise KeyError g1
                 | Some e \<Rightarrow>
                     let g2 = (if u \<in> set (keys e) then g1
                               else g1\<lparr>adj_in := AList.update v (AList.update u [] e) (adj_in g1)\<rparr>);
                         i = (case info of None \<Rightarrow> [] | Some x \<Rightarrow> x)
                     in Ok (g2\<lparr>adj_out := append_at (adj_out g2) u v i,
                                adj_in := append_at (adj_in g2) v u i\<rparr>))))"

text \<open>The four neighbour queries; \<^verbatim>\<open>assert u in self.adj_out\<close> comes first.\<close>

definition outgoing_nodes :: "'v hypergraph \<Rightarrow> 'v \<Rightarrow> error + ('v \<times> info list) list" where
  "outgoing_nodes g u =
     (case map_of (adj_out g) u of
        None \<Rightarrow> Inl AssertionError
      | Some d \<Rightarrow> Inr (dict_of (filter (\<lambda>(v, lst). v \<in> set (keys (nodes g))) d)))"

definition outgoing_hypernodes :: "'v hypergraph \<Rightarrow> 'v \<Rightarrow> error + ('v \<times> info list) list" where
  "outgoing_hypernodes g u =
     (case map_of (adj_out g) u of
        None \<Rightarrow> Inl AssertionError
      | Some d \<Rightarrow> Inr (dict_of (filter (\<lambda>(v, lst). v \<in> set (keys (hypernodes g))) d)))"

definition incoming_nodes :: "'v hypergraph \<Rightarrow> 'v \<Rightarrow> error + ('v \<times> info list) list" where
  "incoming_nodes g v =
     (case map_of (adj_in g) v of
        None \<Rightarrow> Inl AssertionError
      | Some d \<Rightarrow> Inr (dict_of (filter (\<lambda>(u, lst). u \<in> set (keys (nodes g))) d)))"

definition incoming_hypernodes :: "'v hypergraph \<Rightarrow> 'v \<Rightarrow> error + ('v \<times> info list) list" where
  "incoming_hypernodes g v =
     (case map_of (adj_in g) v of
        None \<Rightarrow> Inl AssertionError
      | Some d \<Rightarrow> Inr (dict_of (filter (\<lambda>(u, lst). u \<in> set (keys (hypernodes g))) d)))"

text \<open>
  \<^verbatim>\<open>self.hypernodes if hyper else self.nodes\<close>, as the keys that iteration and
  \<^verbatim>\<open>in\<close> look at.
\<close>

definition tier :: "'v hypergraph \<Rightarrow> bool \<Rightarrow> 'v list" where
  "tier g hyper = (if hyper then keys (hypernodes g) else keys (nodes g))"

definition outdegrees :: "'v hypergraph \<Rightarrow> bool \<Rightarrow> bool \<Rightarrow> error + nat list" where
  "outdegrees g from_hyper to_hyper =
     mapE (\<lambda>u. case map_of (adj_out g) u of
                 None \<Rightarrow> Inl KeyError
               | Some d \<Rightarrow>
                   Inr (sum_list (map (\<lambda>(v, l). length l)
                          (filter (\<lambda>(v, l). v \<in> set (tier g to_hyper)) d))))
       (tier g from_hyper)"

definition indegrees :: "'v hypergraph \<Rightarrow> bool \<Rightarrow> bool \<Rightarrow> error + nat list" where
  "indegrees g from_hyper to_hyper =
     mapE (\<lambda>v. case map_of (adj_in g) v of
                 None \<Rightarrow> Inl KeyError
               | Some d \<Rightarrow>
                   Inr (sum_list (map (\<lambda>(u, l). length l)
                          (filter (\<lambda>(u, l). u \<in> set (tier g from_hyper)) d))))
       (tier g to_hyper)"

section \<open>Graphs built through the three mutators\<close>

text \<open>
  The graphs that a program can hold: the empty graph of \<^verbatim>\<open>Hypergraph()\<close>, and what a
  call of \<^verbatim>\<open>add_node\<close>, \<^verbatim>\<open>add_hypernode\<close> or \<^verbatim>\<open>add_edge\<close> that returns leaves behind.
\<close>

inductive reachable :: "'v hypergraph \<Rightarrow> bool" where
  r_init: "reachable Hypergraph"
| r_node: "reachable g \<Longrightarrow> add_node g u info = Ok g' \<Longrightarrow> reachable g'"
| r_hypernode: "reachable g \<Longrightarrow> add_hypernode g name ns info = Ok g' \<Longrightarrow> reachable g'"
| r_edge: "reachable g \<Longrightarrow> add_edge g u v info = Ok g' \<Longrightarrow> reachable g'"

text \<open>The same, when no identity is given to \<^verbatim>\<open>add_node\<close> or \<^verbatim>\<open>add_hypernode\<close> twice.\<close>

inductive reachable_fresh :: "'v hypergraph \<Rightarrow> bool" where
  f_init: "reachable_fresh Hypergraph"
| f_node: "reachable_fresh g \<Longrightarrow> \<not> registered g u \<Longrightarrow> add_node g u info = Ok g'
     \<Longrightarrow> reachable_fresh g'"
| f_hypernode: "reachable_fresh g \<Longrightarrow> \<not> registered g name \<Longrightarrow> add_hypernode g name ns info = Ok g'
     \<Longrightarrow> reachable_fresh g'"
| f_edge: "reachable_fresh g \<Longrightarrow> add_edge g u v info = Ok g' \<Longrightarrow> reachable_fresh g'"

text \<open>\<^verbatim>\<open>a[u][v]\<close> as an option: \<open>None\<close> when either key is missing.\<close>

definition lookup2 :: "('v \<times> ('v \<times> 'a) list) list \<Rightarrow> 'v \<Rightarrow> 'v \<Rightarrow> 'a option" where
  "lookup2 a u v = (case map_of a u of None \<Rightarrow> None | Some d \<Rightarrow> map_of d v)"

section \<open>Lookups and loops that can raise\<close>

text \<open>\<^verbatim>\<open>d[k]\<close> as an expression: a missing key raises \<^verbatim>\<open>KeyError\<close>.\<close>

definition getitem :: "('k \<times> 'a) list \<Rightarrow> 'k \<Rightarrow> error + 'a" where
  "getitem d k = (case map_of d k of None \<Rightarrow> Inl KeyError | Some x \<Rightarrow> Inr x)"

definition bindE :: "error + 'a \<Rightarrow> ('a \<Rightarrow> error + 'b) \<Rightarrow> error + 'b" where
  "bindE m f = (case m of Inl e \<Rightarrow> Inl e | Inr x \<Rightarrow> f x)"

fun foldE :: "('s \<Rightarrow> 'a \<Rightarrow> error + 's) \<Rightarrow> 's \<Rightarrow> 'a list \<Rightarrow> error + 's" where
  "foldE f s [] = Inr s"
| "foldE f s (x # xs) = (case f s x of Inl e \<Rightarrow> Inl e | Inr s' \<Rightarrow> foldE f s' xs)"

text \<open>A call of a mutator inside a function that does not catch: an exception leaves.\<close>

definition result :: "'v outcome \<Rightarrow> error + 'v hypergraph" where
  "result r = (case r of Ok g \<Rightarrow> Inr g | Raise e g \<Rightarrow> Inl e)"

section \<open>Motif enumeration\<close>

text \<open>\<^verbatim>\<open>itertools.combinations(xs, 2)\<close>: the pairs of positions \<open>i < j\<close>, in order.\<close>

fun combinations2 :: "'a list \<Rightarrow> ('a \<times> 'a) list" where
  "combinations2 [] = []"
| "combinations2 (x # xs) = map (Pair x) xs @ combinations2 xs"

text \<open>
  The comprehensions are evaluated as Python does: the iterable of the first \<^verbatim>\<open>for\<close>
  once, the condition and the iterable of each later \<^verbatim>\<open>for\<close> once per element of the
  loops around it, so that a lookup under an empty loop is never made.
\<close>

definition reciprocity_motifs ::
  "'v hypergraph \<Rightarrow> error + ('v \<times> 'v \<times> 'v \<times> info \<times> info) list" where
  "reciprocity_motifs g =
     concatE (\<lambda>(C1, c1_nodes).
       concatE (\<lambda>c1.
         bindE (getitem (adj_in g) c1) (\<lambda>din.
           concatE (\<lambda>c2.
             if c2 \<in> set (keys (nodes g)) then
               bindE (getitem (adj_out g) C1) (\<lambda>dout.
                 if c2 \<in> set (keys dout) then
                   bindE (getitem (adj_out g) C1) (\<lambda>d1. bindE (getitem d1 c2) (\<lambda>e1s.
                     concatE (\<lambda>e1.
                       bindE (getitem (adj_out g) c2) (\<lambda>d2. bindE (getitem d2 c1) (\<lambda>e2s.
                         Inr (map (\<lambda>e2. (C1, c1, c2, e1, e2)) e2s))))
                       e1s))
                 else Inr [])
             else Inr [])
           (keys din)))
         c1_nodes)
       (hypernodes g)"

definition dyadic_interaction_motifs ::
  "'v hypergraph \<Rightarrow> error + ('v \<times> 'v \<times> info \<times> info) list" where
  "dyadic_interaction_motifs g =
     concatE (\<lambda>C1.
       bindE (getitem (adj_out g) C1) (\<lambda>dout.
         concatE (\<lambda>C2.
           if C2 \<in> set (keys (hypernodes g)) then
             bindE (getitem (adj_out g) C2) (\<lambda>dback.
               if C1 \<in> set (keys dback) then
                 bindE (getitem (adj_out g) C1) (\<lambda>d1. bindE (getitem d1 C2) (\<lambda>e1s.
                   concatE (\<lambda>e1.
                     bindE (getitem (adj_out g) C2) (\<lambda>d2. bindE (getitem d2 C1) (\<lambda>e2s.
                       Inr (map (\<lambda>e2. (C1, C2, e1, e2)) e2s))))
                     e1s))
               else Inr [])
           else Inr [])
         (keys dout)))
       (keys (hypernodes g))"

definition incoming_triad_motifs ::
  "'v hypergraph \<Rightarrow> error + ('v \<times> 'v \<times> 'v \<times> info \<times> info) list" where
  "incoming_triad_motifs g =
     concatE (\<lambda>C1.
       bindE (getitem (adj_in g) C1) (\<lambda>din.
         concatE (\<lambda>(C2, C3).
           bindE (getitem (adj_out g) C2) (\<lambda>d2. bindE (getitem d2 C1) (\<lambda>e1s.
             concatE (\<lambda>e1.
               bindE (getitem (adj_out g) C3) (\<lambda>d3. bindE (getitem d3 C1) (\<lambda>e2s.
                 Inr (map (\<lambda>e2. (C1, C2, C3, e1, e2)) e2s))))
               e1s)))
         (combinations2 (keys din))))
       (keys (hypernodes g))"

definition outgoing_triad_motifs ::
  "'v hypergraph \<Rightarrow> error + ('v \<times> 'v \<times> 'v \<times> info \<times> info) list" where
  "outgoing_triad_motifs g =
     concatE (\<lambda>C1.
       bindE (getitem (adj_out g) C1) (\<lambda>dout.
         concatE (\<lambda>(C2, C3).
           bindE (getitem (adj_out g) C1) (\<lambda>d2. bindE (getitem d2 C2) (\<lambda>e1s.
             concatE (\<lambda>e1.
               bindE (getitem (adj_out g) C1) (\<lambda>d3. bindE (getitem d3 C3) (\<lambda>e2s.
                 Inr (map (\<lambda>e2. (C1, C2, C3, e1, e2)) e2s))))
               e1s)))
         (combinations2 (keys dout))))
       (keys (hypernodes g))"

section \<open>The graph builder \<^verbatim>\<open>HyperConvo._make_hypergraph\<close>\<close>

text \<open>
  An utterance, as the builder reads it: \<^verbatim>\<open>ut.get("id")\<close>, \<^verbatim>\<open>ut.user\<close>,
  \<^verbatim>\<open>ut.get("timestamp")\<close>, \<^verbatim>\<open>ut.get("reply_to")\<close> (\<open>None\<close> for Python's \<^verbatim>\<open>None\<close>) and
  \<^verbatim>\<open>ut.__dict__\<close>. The classes \<^verbatim>\<open>Utterance\<close>, \<^verbatim>\<open>User\<close> and \<^verbatim>\<open>Corpus\<close> are defined
  outside \<^verbatim>\<open>hyperconvo.py\<close>; message identities have the type \<open>'m\<close>, users the type
  \<open>'p\<close>, and timestamps are integers.
\<close>

record ('m, 'p) utterance =
  utt_id :: 'm
  user :: 'p
  timestamp :: int
  reply_to :: "'m option"
  attrs :: info

text \<open>
  The graph of a conversation has message identities and users as its vertices. They
  are values of different Python classes, so a message identity never equals a user.
\<close>

datatype ('m, 'p) vertex = Msg 'm | User 'p

text \<open>The five local variables of the first loop.\<close>

record ('m, 'p) builder =
  graph :: "('m, 'p) vertex hypergraph"
  username_to_utt_ids :: "('p \<times> 'm list) list"
  reply_edges :: "('m \<times> 'm) list"
  speaker_to_reply_tos :: "('p \<times> 'm list) list"
  speaker_target_pairs :: "('p \<times> 'p \<times> int) list"

definition new_builder :: "('m, 'p) builder" where
  "new_builder = \<lparr>graph = Hypergraph, username_to_utt_ids = [], reply_edges = [],
                   speaker_to_reply_tos = [], speaker_target_pairs = []\<rparr>"

text \<open>
  The part of the loop body under
  \<^verbatim>\<open>if reply_to is not None and reply_to in uts and reply_to != exclude_id\<close>.
  \<^verbatim>\<open>speaker_to_reply_tos\<close> is a \<^verbatim>\<open>defaultdict(list)\<close>: a missing key is first given the
  empty list.
\<close>

definition record_reply ::
  "('m \<times> ('m, 'p) utterance) list \<Rightarrow> 'm option \<Rightarrow> ('m, 'p) builder \<Rightarrow> ('m, 'p) utterance
   \<Rightarrow> error + ('m, 'p) builder" where
  "record_reply uts exclude_id b ut =
     (case reply_to ut of
        None \<Rightarrow> Inr b
      | Some r \<Rightarrow>
          if r \<in> set (keys uts) \<and> Some r \<noteq> exclude_id then
            let b1 = b\<lparr>reply_edges := reply_edges b @ [(utt_id ut, r)]\<rparr>;
                s = speaker_to_reply_tos b1;
                s1 = (if user ut \<in> set (keys s) then s else AList.update (user ut) [] s);
                b2 = b1\<lparr>speaker_to_reply_tos := AList.map_entry (user ut) (\<lambda>l. l @ [r]) s1\<rparr>
            in bindE (getitem uts r) (\<lambda>target.
                 Inr (b2\<lparr>speaker_target_pairs :=
                        set_add (speaker_target_pairs b2) (user ut, user target, timestamp ut)\<rparr>))
          else Inr b)"

text \<open>The body of the first loop, for one utterance.\<close>

definition node_step ::
  "('m \<times> ('m, 'p) utterance) list \<Rightarrow> 'm option \<Rightarrow> ('m, 'p) builder \<Rightarrow> ('m, 'p) utterance
   \<Rightarrow> error + ('m, 'p) builder" where
  "node_step uts exclude_id b ut =
     (if Some (utt_id ut) \<noteq> exclude_id then
        let n = username_to_utt_ids b;
            n1 = (if user ut \<notin> set (keys n) then AList.update (user ut) [] n else n);
            b1 = b\<lparr>username_to_utt_ids :=
                     AList.map_entry (user ut) (\<lambda>s. set_add s (utt_id ut)) n1\<rparr>
        in bindE (record_reply uts exclude_id b1 ut) (\<lambda>b2.
             bindE (result (add_node (graph b2) (Msg (utt_id ut)) (Some (attrs ut)))) (\<lambda>g.
               Inr (b2\<lparr>graph := g\<rparr>)))
      else Inr b)"

text \<open>
  The builder once \<^verbatim>\<open>uts\<close> is known: the loop over the utterances sorted by timestamp
  (\<^verbatim>\<open>sorted\<close> is stable, as \<open>sort_key\<close> is), then the hypernodes, the reply edges, the
  edges from a user to the utterances replied to, and the edges from user to user.
  \<^verbatim>\<open>add_hypernode\<close> ignores its \<^verbatim>\<open>info\<close> argument, so \<^verbatim>\<open>u.meta\<close> is not modelled.
\<close>

definition build_hypergraph ::
  "('m \<times> ('m, 'p) utterance) list \<Rightarrow> 'm option \<Rightarrow> error + ('m, 'p) vertex hypergraph" where
  "build_hypergraph uts exclude_id =
     bindE (foldE (node_step uts exclude_id) new_builder (sort_key timestamp (map snd uts))) (\<lambda>b.
     bindE (foldE (\<lambda>g (u, ids). result (add_hypernode g (User u) (map Msg ids) None))
              (graph b) (username_to_utt_ids b)) (\<lambda>g1.
     bindE (foldE (\<lambda>g (u, v). result (add_edge g (Msg u) (Msg v) None)) g1 (reply_edges b)) (\<lambda>g2.
     bindE (foldE (\<lambda>g (u, reply_tos).
                     foldE (\<lambda>g r. result (add_edge g (User u) (Msg r) None)) g reply_tos)
              g2 (speaker_to_reply_tos b)) (\<lambda>g3.
     foldE (\<lambda>g (u, v, t). result (add_edge g (User u) (User v) (Some [(''timestamp'', PInt t)])))
       g3 (speaker_target_pairs b)))))"

text \<open>
  \<^verbatim>\<open>_make_hypergraph(corpus, uts, exclude_id)\<close>. A corpus is the list that
  \<^verbatim>\<open>corpus.iter_utterances()\<close> yields.
\<close>

definition make_hypergraph ::
  "('m, 'p) utterance list option \<Rightarrow> ('m \<times> ('m, 'p) utterance) list option \<Rightarrow> 'm option
   \<Rightarrow> error + ('m, 'p) vertex hypergraph" where
  "make_hypergraph corpus uts exclude_id =
     (case uts of
        Some d \<Rightarrow> build_hypergraph d exclude_id
      | None \<Rightarrow>
          (case corpus of
             None \<Rightarrow> Inl RuntimeError
           | Some c \<Rightarrow> build_hypergraph (dict_of (map (\<lambda>utt. (utt_id utt, utt)) c)) exclude_id))"

section \<open>The degree statistics of \<^verbatim>\<open>HyperConvo._degree_feats\<close>\<close>





text \<open>\<^verbatim>\<open>np.partition(l, -2)[-2]\<close>: the element at the last position but one of the sorted
  vector; \<^verbatim>\<open>ValueError\<close> when there is no such position.\<close>

definition second_largest :: "nat list \<Rightarrow> error + nat" where
  "second_largest l =
     (if length l < 2 then Inl ValueError else Inr (sort l ! (length l - 2)))"









section \<open>Auxiliary notions for the proofs\<close>

text \<open>
  \<open>ensure\<close> is the effect of \<^verbatim>\<open>if v not in a[u]: a[u][v] = []\<close>, \<open>payload\<close> is the
  default \<^verbatim>\<open>if info is None: info = dict()\<close>, and \<open>edge_guard\<close> collects the three
  \<^verbatim>\<open>assert\<close> of \<^verbatim>\<open>add_edge\<close>. The remaining predicates are invariants of the graphs
  that the mutators build.
\<close>

definition ensure :: "('v \<times> ('v \<times> 'a list) list) list \<Rightarrow> 'v \<Rightarrow> 'v \<Rightarrow> ('v \<times> ('v \<times> 'a list) list) list" where
  "ensure a u v = (case map_of a u of None \<Rightarrow> a
     | Some d \<Rightarrow> if v \<in> set (keys d) then a else AList.update u (AList.update v [] d) a)"

definition payload :: "info option \<Rightarrow> info" where
  "payload info = (case info of None \<Rightarrow> [] | Some x \<Rightarrow> x)"

definition edge_guard :: "'v hypergraph \<Rightarrow> 'v \<Rightarrow> 'v \<Rightarrow> info option \<Rightarrow> bool" where
  "edge_guard g u v info \<longleftrightarrow> registered g u \<and> registered g v \<and>
     (u \<in> set (keys (hypernodes g)) \<and> v \<in> set (keys (hypernodes g)) \<longrightarrow> info \<noteq> None \<and> info \<noteq> Some [])"

definition symmetric_adj :: "'v hypergraph \<Rightarrow> bool" where
  "symmetric_adj g \<longleftrightarrow> (\<forall>u v. lookup2 (adj_out g) u v = lookup2 (adj_in g) v u)"

definition adj_registered :: "'v hypergraph \<Rightarrow> bool" where
  "adj_registered g \<longleftrightarrow>
     (\<forall>u v. lookup2 (adj_out g) u v \<noteq> None \<longrightarrow> registered g u \<and> registered g v)"

definition inner_distinct :: "('v \<times> ('v \<times> 'a) list) list \<Rightarrow> bool" where
  "inner_distinct a \<longleftrightarrow> (\<forall>u d. map_of a u = Some d \<longrightarrow> distinct (keys d))"

definition distinct_graph :: "'v hypergraph \<Rightarrow> bool" where
  "distinct_graph g \<longleftrightarrow>
     distinct (keys (nodes g)) \<and> distinct (keys (hypernodes g)) \<and>
     distinct (keys (adj_out g)) \<and> distinct (keys (adj_in g)) \<and>
     inner_distinct (adj_out g) \<and> inner_distinct (adj_in g)"

text \<open>The number of edge instances stored under \<^verbatim>\<open>a[u][v]\<close>, zero when there is no entry.\<close>

definition edge_count :: "('v \<times> ('v \<times> 'a list) list) list \<Rightarrow> 'v \<Rightarrow> 'v \<Rightarrow> nat" where
  "edge_count a u v = (case lookup2 a u v of None \<Rightarrow> 0 | Some l \<Rightarrow> length l)"

section \<open>Notions used to state and prove the claims about the builder\<close>

text \<open>
  \<open>edges_between g u v\<close> is the list of edge instances from \<open>u\<close> to \<open>v\<close>, that is
  \<^verbatim>\<open>adj_out[u][v]\<close>, and the empty list when there is no such entry.
\<close>

definition edges_between :: "'v hypergraph \<Rightarrow> 'v \<Rightarrow> 'v \<Rightarrow> info list" where
  "edges_between g u v = (case lookup2 (adj_out g) u v of None \<Rightarrow> [] | Some l \<Rightarrow> l)"

text \<open>
  A message collection is well formed when it is a dictionary keyed by message identity:
  the keys are distinct and each utterance is stored under its own \<^verbatim>\<open>id\<close>, as
  \<^verbatim>\<open>{utt.id: utt for utt in corpus.iter_utterances()}\<close> and the threads of a corpus are.
\<close>

definition wf_uts :: "('m \<times> ('m, 'p) utterance) list \<Rightarrow> bool" where
  "wf_uts uts \<longleftrightarrow> distinct (keys uts) \<and> list_all (\<lambda>(k, ut). utt_id ut = k) uts"

text \<open>
  The timestamps of the replies by author \<open>a\<close> to messages of author \<open>b\<close>, one entry for
  each reply message, in the order of the dictionary. This follows the words of the claims,
  not the builder: a reply counts when its message is not the excluded one and its reply
  target is a message of the collection other than the excluded one.
\<close>

definition reply_times ::
  "('m \<times> ('m, 'p) utterance) list \<Rightarrow> 'm option \<Rightarrow> 'p \<Rightarrow> 'p \<Rightarrow> int list" where
  "reply_times uts exclude_id a b =
     concat (map (\<lambda>(k, ut).
       case reply_to ut of
         None \<Rightarrow> []
       | Some r \<Rightarrow>
           (case map_of uts r of
              None \<Rightarrow> []
            | Some target \<Rightarrow>
                if Some (utt_id ut) \<noteq> exclude_id \<and> Some r \<noteq> exclude_id \<and>
                   user ut = a \<and> user target = b
                then [timestamp ut] else [])) uts)"

text \<open>
  The rest is for the proofs. \<open>add_edges\<close> is a loop of \<^verbatim>\<open>add_edge\<close> calls over a list
  of edges. \<open>included\<close>, \<open>reply_of\<close> and \<open>replies\<close> name the two conditions of the first
  loop of the builder and the replies it records; \<open>dd_append\<close> and \<open>ds_add\<close> are the
  updates of \<^verbatim>\<open>speaker_to_reply_tos\<close> and \<^verbatim>\<open>username_to_utt_ids\<close>; \<open>node_pure\<close> is the
  body of the first loop as a function that cannot fail; \<open>reply_triples\<close> lists the
  triples added to \<^verbatim>\<open>speaker_target_pairs\<close>, and \<open>stamp t\<close> is the payload
  \<^verbatim>\<open>{'timestamp': t}\<close>. \<open>dyadic_pure\<close> is what \<^verbatim>\<open>dyadic_interaction_motifs\<close> returns
  when no lookup fails, and \<open>both_are A\<close> selects the instances whose two hypernodes are
  both \<open>A\<close>.
\<close>

definition add_edges :: "'v hypergraph \<Rightarrow> ('v \<times> 'v \<times> info option) list \<Rightarrow> error + 'v hypergraph" where
  "add_edges g es = foldE (\<lambda>g (u, v, i). result (add_edge g u v i)) g es"

definition included :: "'m option \<Rightarrow> ('m, 'p) utterance \<Rightarrow> bool" where
  "included exclude_id ut \<longleftrightarrow> Some (utt_id ut) \<noteq> exclude_id"

definition reply_of ::
  "('m \<times> ('m, 'p) utterance) list \<Rightarrow> 'm option \<Rightarrow> ('m, 'p) utterance
   \<Rightarrow> ('m \<times> ('m, 'p) utterance) option" where
  "reply_of uts exclude_id ut =
     (case reply_to ut of
        None \<Rightarrow> None
      | Some r \<Rightarrow>
          if Some r \<noteq> exclude_id
          then (case map_of uts r of None \<Rightarrow> None | Some target \<Rightarrow> Some (r, target))
          else None)"

definition replies ::
  "('m \<times> ('m, 'p) utterance) list \<Rightarrow> 'm option \<Rightarrow> ('m, 'p) utterance list
   \<Rightarrow> (('m, 'p) utterance \<times> 'm \<times> ('m, 'p) utterance) list" where
  "replies uts exclude_id us =
     concat (map (\<lambda>ut. if included exclude_id ut
                         then (case reply_of uts exclude_id ut of
                                 None \<Rightarrow> [] | Some (r, target) \<Rightarrow> [(ut, r, target)])
                         else []) us)"

definition dd_append :: "('k \<times> 'a list) list \<Rightarrow> 'k \<Rightarrow> 'a \<Rightarrow> ('k \<times> 'a list) list" where
  "dd_append s k x =
     AList.map_entry k (\<lambda>l. l @ [x]) (if k \<in> set (keys s) then s else AList.update k [] s)"

definition ds_add :: "('k \<times> 'a list) list \<Rightarrow> 'k \<Rightarrow> 'a \<Rightarrow> ('k \<times> 'a list) list" where
  "ds_add s k x =
     AList.map_entry k (\<lambda>l. set_add l x) (if k \<in> set (keys s) then s else AList.update k [] s)"

definition flat :: "('k \<times> 'a list) list \<Rightarrow> ('k \<times> 'a) list" where
  "flat s = concat (map (\<lambda>(k, xs). map (Pair k) xs) s)"

definition node_pure ::
  "('m \<times> ('m, 'p) utterance) list \<Rightarrow> 'm option \<Rightarrow> ('m, 'p) builder \<Rightarrow> ('m, 'p) utterance
   \<Rightarrow> ('m, 'p) builder" where
  "node_pure uts exclude_id b ut =
     (if included exclude_id ut then
        \<lparr>graph = (graph b)\<lparr>nodes := AList.update (Msg (utt_id ut)) (attrs ut) (nodes (graph b)),
                    adj_out := AList.update (Msg (utt_id ut)) [] (adj_out (graph b)),
                    adj_in := AList.update (Msg (utt_id ut)) [] (adj_in (graph b))\<rparr>,
         username_to_utt_ids = ds_add (username_to_utt_ids b) (user ut) (utt_id ut),
         reply_edges = reply_edges b @
           (case reply_of uts exclude_id ut of None \<Rightarrow> [] | Some (r, target) \<Rightarrow> [(utt_id ut, r)]),
         speaker_to_reply_tos =
           (case reply_of uts exclude_id ut of None \<Rightarrow> speaker_to_reply_tos b
            | Some (r, target) \<Rightarrow> dd_append (speaker_to_reply_tos b) (user ut) r),
         speaker_target_pairs =
           (case reply_of uts exclude_id ut of None \<Rightarrow> speaker_target_pairs b
            | Some (r, target) \<Rightarrow>
                set_add (speaker_target_pairs b) (user ut, user target, timestamp ut))\<rparr>
      else b)"

definition no_edges :: "'v hypergraph \<Rightarrow> bool" where
  "no_edges g \<longleftrightarrow> (\<forall>x y. lookup2 (adj_out g) x y = None)"

definition reply_triples ::
  "('m \<times> ('m, 'p) utterance) list \<Rightarrow> 'm option \<Rightarrow> ('p \<times> 'p \<times> int) list" where
  "reply_triples uts ex =
     map (\<lambda>(ut, r, target). (user ut, user target, timestamp ut))
       (replies uts ex (sort_key timestamp (map snd uts)))"

definition stamp :: "int \<Rightarrow> info" where
  "stamp t = [(''timestamp'', PInt t)]"

definition out_dict :: "'v hypergraph \<Rightarrow> 'v \<Rightarrow> ('v \<times> info list) list" where
  "out_dict g C = (case map_of (adj_out g) C of None \<Rightarrow> [] | Some d \<Rightarrow> d)"

definition dyadic_pairs :: "'v hypergraph \<Rightarrow> 'v \<Rightarrow> 'v \<Rightarrow> ('v \<times> 'v \<times> info \<times> info) list" where
  "dyadic_pairs g C1 C2 =
     (if C2 \<in> set (keys (hypernodes g)) \<and> C1 \<in> set (keys (out_dict g C2))
      then concat (map (\<lambda>e1. map (\<lambda>e2. (C1, C2, e1, e2)) (edges_between g C2 C1))
                    (edges_between g C1 C2))
      else [])"

definition dyadic_pure :: "'v hypergraph \<Rightarrow> ('v \<times> 'v \<times> info \<times> info) list" where
  "dyadic_pure g =
     concat (map (\<lambda>C1. concat (map (dyadic_pairs g C1) (keys (out_dict g C1))))
               (keys (hypernodes g)))"

definition both_are :: "'v \<Rightarrow> 'v \<times> 'v \<times> info \<times> info \<Rightarrow> bool" where
  "both_are A m = (case m of (C1, C2, e1, e2) \<Rightarrow> C1 = A \<and> C2 = A)"


text \<open>
  Small graphs over natural numbers, used to instantiate the theorems: the graphs after
  \<^verbatim>\<open>add_node(1)\<close>, \<^verbatim>\<open>add_node(2)\<close>, \<^verbatim>\<open>add_edge(1, 2)\<close> and a second \<^verbatim>\<open>add_node(1)\<close>, and
  the graph with the two hypernodes 10 and 20.
\<close>

definition g_one :: "nat hypergraph" where
  "g_one = \<lparr>nodes = [(1, [])], hypernodes = [], adj_out = [(1, [])], adj_in = [(1, [])]\<rparr>"

definition g_two :: "nat hypergraph" where
  "g_two = \<lparr>nodes = [(1, []), (2, [])], hypernodes = [],
            adj_out = [(1, []), (2, [])], adj_in = [(1, []), (2, [])]\<rparr>"

definition g_edge :: "nat hypergraph" where
  "g_edge = \<lparr>nodes = [(1, []), (2, [])], hypernodes = [],
             adj_out = [(1, [(2, [[]])]), (2, [])], adj_in = [(1, []), (2, [(1, [[]])])]\<rparr>"

definition g_again :: "nat hypergraph" where
  "g_again = \<lparr>nodes = [(1, []), (2, [])], hypernodes = [],
              adj_out = [(1, []), (2, [])], adj_in = [(1, []), (2, [(1, [[]])])]\<rparr>"

definition h_two :: "nat hypergraph" where
  "h_two = \<lparr>nodes = [], hypernodes = [(10, []), (20, [])],
            adj_out = [(10, []), (20, [])], adj_in = [(10, []), (20, [])]\<rparr>"

text \<open>
  Two conversations: user 1 writes message 1 and user 2 answers it with message 2; and
  user 1 writes message 1 and answers it with message 2. \<open>two_speakers_graph\<close> is the
  graph that the builder returns for the first.
\<close>

definition two_speakers :: "(nat \<times> (nat, nat) utterance) list" where
  "two_speakers =
     [(1, \<lparr>utt_id = 1, user = 1, timestamp = 1, reply_to = None, attrs = []\<rparr>),
      (2, \<lparr>utt_id = 2, user = 2, timestamp = 2, reply_to = Some 1, attrs = []\<rparr>)]"

definition two_speakers_graph :: "(nat, nat) vertex hypergraph" where
  "two_speakers_graph =
     \<lparr>nodes = [(Msg 1, []), (Msg 2, [])],
      hypernodes = [(User 1, [Msg 1]), (User 2, [Msg 2])],
      adj_out = [(Msg 1, []), (Msg 2, [(Msg 1, [[]])]), (User 1, []),
                 (User 2, [(Msg 1, [[]]), (User 1, [[(''timestamp'', PInt 2)]])])],
      adj_in = [(Msg 1, [(Msg 2, [[]]), (User 2, [[]])]), (Msg 2, []),
                (User 1, [(User 2, [[(''timestamp'', PInt 2)]])]), (User 2, [])]\<rparr>"

definition first_message :: "(nat, nat) utterance" where
  "first_message = \<lparr>utt_id = 1, user = 1, timestamp = 1, reply_to = None, attrs = []\<rparr>"

definition own_reply :: "(nat, nat) utterance" where
  "own_reply = \<lparr>utt_id = 2, user = 1, timestamp = 2, reply_to = Some 1, attrs = []\<rparr>"

text \<open>
  \<open>self_reply\<close> is the conversation in which user 1 answers the own message 1 with
  message 2. In \<open>busy_thread\<close>, user 2 answers message 1 of user 1 three times, twice at
  timestamp 5 and once at timestamp 7.
\<close>

definition self_reply :: "(nat \<times> (nat, nat) utterance) list" where
  "self_reply = [(1, first_message), (2, own_reply)]"

definition busy_thread :: "(nat \<times> (nat, nat) utterance) list" where
  "busy_thread =
     [(1, \<lparr>utt_id = 1, user = 1, timestamp = 1, reply_to = None, attrs = []\<rparr>),
      (2, \<lparr>utt_id = 2, user = 2, timestamp = 5, reply_to = Some 1, attrs = []\<rparr>),
      (3, \<lparr>utt_id = 3, user = 2, timestamp = 5, reply_to = Some 1, attrs = []\<rparr>),
      (4, \<lparr>utt_id = 4, user = 2, timestamp = 7, reply_to = Some 1, attrs = []\<rparr>)]"

section \<open>Facts about dictionaries and \<^verbatim>\<open>add_edge\<close>\<close>

lemma in_keys_map_of: "k \<in> fst ` set d \<longleftrightarrow> map_of d k \<noteq> None"
  by (simp add: map_of_eq_None_iff)

lemma add_edge_guarded:
  assumes "edge_guard g u v info" "map_of (adj_out g) u = Some d" "map_of (adj_in g) v = Some e"
  shows "add_edge g u v info =
     Ok (g\<lparr>adj_out := append_at (ensure (adj_out g) u v) u v (payload info),
            adj_in := append_at (ensure (adj_in g) v u) v u (payload info)\<rparr>)"
proof -
  have g: "registered g u" "registered g v"
    "\<not> (u \<in> set (keys (hypernodes g)) \<and> v \<in> set (keys (hypernodes g)) \<and> info = None)"
    "\<not> (u \<in> set (keys (hypernodes g)) \<and> v \<in> set (keys (hypernodes g)) \<and> info = Some [])"
    using assms(1) by (auto simp: edge_guard_def)
  show ?thesis
    unfolding add_edge_def
    by (simp only: g if_False if_True not_True_eq_False not_not)
       (simp add: assms(2,3) Let_def ensure_def payload_def)
qed

lemma add_edge_unreg_u: "\<not> registered g u \<Longrightarrow> add_edge g u v info = Raise AssertionError g"
  by (simp add: add_edge_def)

lemma add_edge_unreg_v: "\<not> registered g v \<Longrightarrow> add_edge g u v info = Raise AssertionError g"
  by (simp add: add_edge_def)

lemma add_edge_hyper_None:
  "u \<in> set (keys (hypernodes g)) \<Longrightarrow> v \<in> set (keys (hypernodes g))
   \<Longrightarrow> add_edge g u v None = Raise AttributeError g"
  by (simp add: add_edge_def registered_def)

lemma add_edge_hyper_empty:
  "u \<in> set (keys (hypernodes g)) \<Longrightarrow> v \<in> set (keys (hypernodes g))
   \<Longrightarrow> add_edge g u v (Some []) = Raise AssertionError g"
  by (simp add: add_edge_def registered_def)

lemma add_edge_not_guard:
  assumes "\<not> edge_guard g u v info"
  shows "\<exists>e. add_edge g u v info = Raise e g"
proof -
  consider "\<not> registered g u" | "\<not> registered g v"
    | "u \<in> set (keys (hypernodes g))" "v \<in> set (keys (hypernodes g))" "info = None"
    | "u \<in> set (keys (hypernodes g))" "v \<in> set (keys (hypernodes g))" "info = Some []"
    using assms unfolding edge_guard_def by blast
  then show ?thesis
  proof cases
    case 1 then show ?thesis by (simp add: add_edge_unreg_u)
  next
    case 2 then show ?thesis by (simp add: add_edge_unreg_v)
  next
    case 3 then show ?thesis by (simp add: add_edge_hyper_None)
  next
    case 4 then show ?thesis by (simp add: add_edge_hyper_empty)
  qed
qed

lemma add_edge_no_out:
  assumes "edge_guard g u v info" "map_of (adj_out g) u = None"
  shows "add_edge g u v info = Raise KeyError g"
proof -
  have g: "registered g u" "registered g v"
    "\<not> (u \<in> set (keys (hypernodes g)) \<and> v \<in> set (keys (hypernodes g)) \<and> info = None)"
    "\<not> (u \<in> set (keys (hypernodes g)) \<and> v \<in> set (keys (hypernodes g)) \<and> info = Some [])"
    using assms(1) by (auto simp: edge_guard_def)
  show ?thesis
    unfolding add_edge_def
    by (simp only: g if_False if_True not_True_eq_False not_not) (simp add: assms(2))
qed

lemma add_edge_no_in:
  assumes "edge_guard g u v info" "map_of (adj_out g) u = Some d" "map_of (adj_in g) v = None"
  shows "\<exists>g1. add_edge g u v info = Raise KeyError g1"
proof -
  have g: "registered g u" "registered g v"
    "\<not> (u \<in> set (keys (hypernodes g)) \<and> v \<in> set (keys (hypernodes g)) \<and> info = None)"
    "\<not> (u \<in> set (keys (hypernodes g)) \<and> v \<in> set (keys (hypernodes g)) \<and> info = Some [])"
    using assms(1) by (auto simp: edge_guard_def)
  show ?thesis
    unfolding add_edge_def
    by (simp only: g if_False if_True not_True_eq_False not_not) (simp add: assms(2,3) Let_def)
qed

lemma add_edge_OkD:
  assumes "add_edge g u v info = Ok g'"
  shows "edge_guard g u v info" and "u \<in> set (keys (adj_out g))" and "v \<in> set (keys (adj_in g))"
    and "g' = g\<lparr>adj_out := append_at (ensure (adj_out g) u v) u v (payload info),
            adj_in := append_at (ensure (adj_in g) v u) v u (payload info)\<rparr>"
proof -
  show G: "edge_guard g u v info"
    using add_edge_not_guard[of g u v info] assms by auto
  obtain d where d: "map_of (adj_out g) u = Some d"
    using add_edge_no_out[OF G] assms by (cases "map_of (adj_out g) u") auto
  obtain e where e: "map_of (adj_in g) v = Some e"
    using add_edge_no_in[OF G d] assms by (cases "map_of (adj_in g) v") auto
  show "u \<in> set (keys (adj_out g))" using d by (simp add: in_keys_map_of)
  show "v \<in> set (keys (adj_in g))" using e by (simp add: in_keys_map_of)
  show "g' = g\<lparr>adj_out := append_at (ensure (adj_out g) u v) u v (payload info),
            adj_in := append_at (ensure (adj_in g) v u) v u (payload info)\<rparr>"
    using add_edge_guarded[OF G d e] assms by simp
qed

lemma keys_map_entry: "keys (AList.map_entry k f d) = keys d"
  by (induction d) auto

lemma keys_append_at: "keys (append_at a u v i) = keys a"
  by (simp add: append_at_def keys_map_entry)

lemma keys_ensure: "keys (ensure a u v) = keys a"
  by (auto simp: ensure_def AList.update_keys in_keys_map_of split: option.splits)

lemma lookup2_append_at:
  "lookup2 (append_at a u v i) x y =
     (if x = u \<and> y = v then map_option (\<lambda>l. l @ [i]) (lookup2 a u v) else lookup2 a x y)"
  by (auto simp: lookup2_def append_at_def AList.map_of_map_entry split: option.splits)

lemma lookup2_ensure:
  "u \<in> set (keys a) \<Longrightarrow> lookup2 (ensure a u v) x y =
     (if x = u \<and> y = v then (case lookup2 a u v of None \<Rightarrow> Some [] | Some l \<Rightarrow> Some l)
      else lookup2 a x y)"
  by (auto simp: lookup2_def ensure_def AList.update_conv' in_keys_map_of split: option.splits)

lemma lookup2_update_empty:
  "lookup2 (AList.update u [] a) x y = (if x = u then None else lookup2 a x y)"
  by (simp add: lookup2_def AList.update_conv')

lemma add_edge_Ok_lookup_out:
  assumes "add_edge g u v info = Ok g'"
  shows "lookup2 (adj_out g') x y =
     (if x = u \<and> y = v
      then Some ((case lookup2 (adj_out g) u v of None \<Rightarrow> [] | Some l \<Rightarrow> l) @ [payload info])
      else lookup2 (adj_out g) x y)"
  using add_edge_OkD(2,4)[OF assms]
  by (auto simp: lookup2_append_at lookup2_ensure split: option.splits)

lemma add_edge_Ok_lookup_in:
  assumes "add_edge g u v info = Ok g'"
  shows "lookup2 (adj_in g') y x =
     (if x = u \<and> y = v
      then Some ((case lookup2 (adj_in g) v u of None \<Rightarrow> [] | Some l \<Rightarrow> l) @ [payload info])
      else lookup2 (adj_in g) y x)"
  using add_edge_OkD(3,4)[OF assms]
  by (auto simp: lookup2_append_at lookup2_ensure split: option.splits)

lemma add_edge_Ok_fields:
  assumes "add_edge g u v info = Ok g'"
  shows "nodes g' = nodes g" and "hypernodes g' = hypernodes g"
    and "keys (adj_out g') = keys (adj_out g)"
    and "keys (adj_in g') = keys (adj_in g)"
    and "registered g' = registered g"
  using add_edge_OkD(4)[OF assms]
  by (simp_all add: keys_append_at keys_ensure registered_def fun_eq_iff)

lemma add_node_OkD:
  assumes "add_node g u info = Ok g'"
  shows "adj_out g' = AList.update u [] (adj_out g)" and "adj_in g' = AList.update u [] (adj_in g)"
    and "nodes g' = AList.update u (payload info) (nodes g)" and "hypernodes g' = hypernodes g"
    and "registered g' x \<longleftrightarrow> x = u \<or> registered g x"
proof -
  have g': "g' = g\<lparr>nodes := AList.update u (payload info) (nodes g),
           adj_out := AList.update u [] (adj_out g),
           adj_in := AList.update u [] (adj_in g)\<rparr>"
    using assms by (simp add: add_node_def payload_def)
  show "adj_out g' = AList.update u [] (adj_out g)" "adj_in g' = AList.update u [] (adj_in g)"
    "nodes g' = AList.update u (payload info) (nodes g)" "hypernodes g' = hypernodes g"
    by (simp_all add: g')
  show "registered g' x \<longleftrightarrow> x = u \<or> registered g x"
    unfolding g' registered_def by (simp add: AList.dom_update)
qed

lemma add_hypernode_OkD:
  assumes "add_hypernode g u ns info = Ok g'"
  shows "adj_out g' = AList.update u [] (adj_out g)" and "adj_in g' = AList.update u [] (adj_in g)"
    and "hypernodes g' = AList.update u (pyset ns) (hypernodes g)" and "nodes g' = nodes g"
    and "registered g' x \<longleftrightarrow> x = u \<or> registered g x"
proof -
  have g': "g' = g\<lparr>hypernodes := AList.update u (pyset ns) (hypernodes g),
           adj_out := AList.update u [] (adj_out g),
           adj_in := AList.update u [] (adj_in g)\<rparr>"
    using assms by (simp add: add_hypernode_def)
  show "adj_out g' = AList.update u [] (adj_out g)" "adj_in g' = AList.update u [] (adj_in g)"
    "hypernodes g' = AList.update u (pyset ns) (hypernodes g)" "nodes g' = nodes g"
    by (simp_all add: g')
  show "registered g' x \<longleftrightarrow> x = u \<or> registered g x"
    unfolding g' registered_def by (simp add: AList.dom_update) blast
qed

lemma reachable_adj_keys:
  "reachable g \<Longrightarrow> registered g u \<Longrightarrow> u \<in> fst ` set (adj_out g) \<and> u \<in> fst ` set (adj_in g)"
proof (induction arbitrary: u rule: reachable.induct)
  case r_init
  then show ?case by (simp add: registered_def Hypergraph_def)
next
  case (r_node g w info g')
  show ?case
    using r_node.IH[of u] r_node.prems
    by (auto simp: add_node_OkD[OF r_node.hyps(2)] AList.dom_update)
next
  case (r_hypernode g name ns info g')
  show ?case
    using r_hypernode.IH[of u] r_hypernode.prems
    by (auto simp: add_hypernode_OkD[OF r_hypernode.hyps(2)] AList.dom_update)
next
  case (r_edge g a b info g')
  have "set (keys (adj_out g')) = set (keys (adj_out g))" "set (keys (adj_in g')) = set (keys (adj_in g))"
    using add_edge_Ok_fields(3,4)[OF r_edge.hyps(2)] by simp_all
  then show ?case
    using r_edge add_edge_Ok_fields(5)[OF r_edge.hyps(2)] by simp
qed

lemma reachable_fresh_inv:
  "reachable_fresh g \<Longrightarrow> symmetric_adj g \<and> adj_registered g"
proof (induction rule: reachable_fresh.induct)
  case f_init
  then show ?case by (simp add: symmetric_adj_def adj_registered_def Hypergraph_def lookup2_def)
next
  case (f_node g w info g')
  have g': "adj_out g' = AList.update w [] (adj_out g)" "adj_in g' = AList.update w [] (adj_in g)"
      "\<And>x. registered g x \<Longrightarrow> registered g' x"
    using add_node_OkD[OF f_node.hyps(3)] by simp_all
  have none: "lookup2 (adj_out g) w y = None" "lookup2 (adj_out g) x w = None" for x y
    using f_node.IH f_node.hyps(2) unfolding adj_registered_def by blast+
  have sym: "lookup2 (adj_out g) x y = lookup2 (adj_in g) y x" for x y
    using f_node.IH unfolding symmetric_adj_def by blast
  have "symmetric_adj g'"
    unfolding symmetric_adj_def g' lookup2_update_empty
    using none sym by metis
  moreover have "adj_registered g'"
    unfolding adj_registered_def g'(1) lookup2_update_empty
    using f_node.IH g'(3) unfolding adj_registered_def by (metis (full_types))
  ultimately show ?case by simp
next
  case (f_hypernode g w ns info g')
  have g': "adj_out g' = AList.update w [] (adj_out g)" "adj_in g' = AList.update w [] (adj_in g)"
      "\<And>x. registered g x \<Longrightarrow> registered g' x"
    using add_hypernode_OkD[OF f_hypernode.hyps(3)] by simp_all
  have none: "lookup2 (adj_out g) w y = None" "lookup2 (adj_out g) x w = None" for x y
    using f_hypernode.IH f_hypernode.hyps(2) unfolding adj_registered_def by blast+
  have sym: "lookup2 (adj_out g) x y = lookup2 (adj_in g) y x" for x y
    using f_hypernode.IH unfolding symmetric_adj_def by blast
  have "symmetric_adj g'"
    unfolding symmetric_adj_def g' lookup2_update_empty
    using none sym by metis
  moreover have "adj_registered g'"
    unfolding adj_registered_def g'(1) lookup2_update_empty
    using f_hypernode.IH g'(3) unfolding adj_registered_def by (metis (full_types))
  ultimately show ?case by simp
next
  case (f_edge g a b info g')
  note ok = f_edge.hyps(2)
  have sym: "lookup2 (adj_out g) x y = lookup2 (adj_in g) y x" for x y
    using f_edge.IH unfolding symmetric_adj_def by blast
  have reg: "registered g a" "registered g b"
    using add_edge_OkD(1)[OF ok] by (simp_all add: edge_guard_def)
  have "symmetric_adj g'"
    unfolding symmetric_adj_def
    by (simp add: add_edge_Ok_lookup_out[OF ok] add_edge_Ok_lookup_in[OF ok] sym)
  moreover have "adj_registered g'"
    unfolding adj_registered_def add_edge_Ok_fields(5)[OF ok]
    using f_edge.IH reg unfolding adj_registered_def
    by (simp add: add_edge_Ok_lookup_out[OF ok])
  ultimately show ?case by simp
qed

lemma inner_distinct_update_empty: "inner_distinct a \<Longrightarrow> inner_distinct (AList.update u [] a)"
  by (simp add: inner_distinct_def AList.update_conv')

lemma inner_distinct_ensure: "inner_distinct a \<Longrightarrow> inner_distinct (ensure a u v)"
  by (auto simp: inner_distinct_def ensure_def AList.update_conv' AList.distinct_update
      split: option.splits if_splits)

lemma inner_distinct_append_at: "inner_distinct a \<Longrightarrow> inner_distinct (append_at a u v i)"
  by (auto simp: inner_distinct_def append_at_def AList.map_of_map_entry AList.distinct_map_entry
      split: option.splits if_splits)

lemma distinct_keys_ensure: "distinct (keys a) \<Longrightarrow> distinct (keys (ensure a u v))"
  by (simp add: keys_ensure)

lemma distinct_keys_append_at: "distinct (keys a) \<Longrightarrow> distinct (keys (append_at a u v i))"
  by (simp add: keys_append_at)

lemma reachable_distinct: "reachable g \<Longrightarrow> distinct_graph g"
proof (induction rule: reachable.induct)
  case r_init
  then show ?case by (simp add: distinct_graph_def Hypergraph_def inner_distinct_def)
next
  case (r_node g u info g')
  then show ?case
    unfolding distinct_graph_def add_node_OkD(1-4)[OF r_node.hyps(2)]
    by (simp add: AList.distinct_update inner_distinct_update_empty)
next
  case (r_hypernode g name ns info g')
  then show ?case
    unfolding distinct_graph_def add_hypernode_OkD(1-4)[OF r_hypernode.hyps(2)]
    by (simp add: AList.distinct_update inner_distinct_update_empty)
next
  case (r_edge g u v info g')
  then show ?case
    unfolding distinct_graph_def add_edge_Ok_fields(1-4)[OF r_edge.hyps(2)]
    unfolding add_edge_OkD(4)[OF r_edge.hyps(2)]
    by (simp add: inner_distinct_append_at inner_distinct_ensure)
qed

lemma dict_of_distinct_aux:
  "distinct (keys (acc @ ps)) \<Longrightarrow> foldl (\<lambda>d (k, v). AList.update k v d) acc ps = acc @ ps"
proof (induction ps arbitrary: acc)
  case Nil
  then show ?case by simp
next
  case (Cons p ps)
  obtain k v where p: "p = (k, v)" by (cases p)
  have "k \<notin> fst ` set acc" using Cons.prems p by auto
  then have "AList.update k v acc = acc @ [(k, v)]"
    by (induction acc) auto
  then show ?case using Cons.IH[of "acc @ [(k, v)]"] Cons.prems p by simp
qed

lemma dict_of_distinct: "distinct (keys ps) \<Longrightarrow> dict_of ps = ps"
  using dict_of_distinct_aux[of "[]" ps] by (simp add: dict_of_def)

lemma map_of_filter_keys:
  "map_of (filter (\<lambda>(k, v). k \<in> S) d) k = (if k \<in> S then map_of d k else None)"
  by (induction d) auto

lemma map_of_dict_of_filter:
  "distinct (keys d) \<Longrightarrow>
   map_of (dict_of (filter (\<lambda>(k, v). k \<in> S) d)) k = (if k \<in> S then map_of d k else None)"
  by (simp add: dict_of_distinct distinct_map_filter map_of_filter_keys)

section \<open>Degree vectors as sums over the tiers\<close>

lemma reachable_fresh_reachable: "reachable_fresh g \<Longrightarrow> reachable g"
  by (induction rule: reachable_fresh.induct) (auto intro: reachable.intros)

lemma mapE_Inr: "(\<And>x. x \<in> set xs \<Longrightarrow> f x = Inr (h x)) \<Longrightarrow> mapE f xs = Inr (map h xs)"
  by (induction xs) auto

lemma filtered_length_sum:
  assumes "distinct (keys d)" "finite S"
  shows "sum_list (map (\<lambda>(v, l). length l) (filter (\<lambda>(v, l). v \<in> S) d)) =
         (\<Sum>v\<in>S. case map_of d v of None \<Rightarrow> 0 | Some l \<Rightarrow> length l)"
  using assms(1)
proof (induction d)
  case Nil
  then show ?case by simp
next
  case (Cons p d)
  obtain k l where p: "p = (k, l)" by (cases p)
  have k: "map_of d k = None" using Cons.prems p by (simp add: map_of_eq_None_iff)
  have IH: "sum_list (map (\<lambda>(v, l). length l) (filter (\<lambda>(v, l). v \<in> S) d)) =
         (\<Sum>v\<in>S. case map_of d v of None \<Rightarrow> 0 | Some l \<Rightarrow> length l)"
    using Cons by simp
  have "(\<Sum>v\<in>S. case map_of (p # d) v of None \<Rightarrow> 0 | Some l \<Rightarrow> length l) =
        (\<Sum>v\<in>S. (if v = k then length l else 0) + (case map_of d v of None \<Rightarrow> 0 | Some l \<Rightarrow> length l))"
    by (rule sum.cong) (auto simp: p k)
  also have "\<dots> = (\<Sum>v\<in>S. if v = k then length l else 0) +
        (\<Sum>v\<in>S. case map_of d v of None \<Rightarrow> 0 | Some l \<Rightarrow> length l)"
    by (simp add: sum.distrib)
  also have "(\<Sum>v\<in>S. if v = k then length l else 0) = (if k \<in> S then length l else 0)"
    using assms(2) by (simp add: sum.delta)
  finally show ?case using IH by (simp add: p)
qed

lemma degree_sum_out:
  assumes "reachable g"
  shows "\<exists>os. outdegrees g fh th = Inr os \<and>
     sum_list os = (\<Sum>u\<in>set (tier g fh). \<Sum>v\<in>set (tier g th). edge_count (adj_out g) u v)"
proof -
  let ?h = "\<lambda>u. \<Sum>v\<in>set (tier g th). edge_count (adj_out g) u v"
  have dg: "distinct_graph g" using reachable_distinct[OF assms] .
  have each: "(case map_of (adj_out g) u of None \<Rightarrow> Inl KeyError
        | Some d \<Rightarrow> Inr (sum_list (map (\<lambda>(v, l). length l)
                          (filter (\<lambda>(v, l). v \<in> set (tier g th)) d)))) = Inr (?h u)"
    if "u \<in> set (tier g fh)" for u
  proof -
    have "registered g u" using that by (auto simp: tier_def registered_def split: if_splits)
    then obtain d where d: "map_of (adj_out g) u = Some d"
      using reachable_adj_keys[OF assms] by (auto simp: in_keys_map_of)
    have "distinct (keys d)" using dg d by (auto simp: distinct_graph_def inner_distinct_def)
    then show ?thesis
      by (simp add: d filtered_length_sum edge_count_def lookup2_def)
  qed
  have "outdegrees g fh th = Inr (map ?h (tier g fh))"
    unfolding outdegrees_def by (rule mapE_Inr) (rule each)
  moreover have "distinct (tier g fh)" using dg by (simp add: tier_def distinct_graph_def)
  ultimately show ?thesis by (simp add: sum_list_distinct_conv_sum_set)
qed

lemma degree_sum_in:
  assumes "reachable g"
  shows "\<exists>is. indegrees g fh th = Inr is \<and>
     sum_list is = (\<Sum>v\<in>set (tier g th). \<Sum>u\<in>set (tier g fh). edge_count (adj_in g) v u)"
proof -
  let ?h = "\<lambda>v. \<Sum>u\<in>set (tier g fh). edge_count (adj_in g) v u"
  have dg: "distinct_graph g" using reachable_distinct[OF assms] .
  have each: "(case map_of (adj_in g) v of None \<Rightarrow> Inl KeyError
        | Some d \<Rightarrow> Inr (sum_list (map (\<lambda>(u, l). length l)
                          (filter (\<lambda>(u, l). u \<in> set (tier g fh)) d)))) = Inr (?h v)"
    if "v \<in> set (tier g th)" for v
  proof -
    have "registered g v" using that by (auto simp: tier_def registered_def split: if_splits)
    then obtain d where d: "map_of (adj_in g) v = Some d"
      using reachable_adj_keys[OF assms] by (auto simp: in_keys_map_of)
    have "distinct (keys d)" using dg d by (auto simp: distinct_graph_def inner_distinct_def)
    then show ?thesis
      by (simp add: d filtered_length_sum edge_count_def lookup2_def)
  qed
  have "indegrees g fh th = Inr (map ?h (tier g th))"
    unfolding indegrees_def by (rule mapE_Inr) (rule each)
  moreover have "distinct (tier g th)" using dg by (simp add: tier_def distinct_graph_def)
  ultimately show ?thesis by (simp add: sum_list_distinct_conv_sum_set)
qed

section \<open>The builder, loop by loop\<close>

lemma foldE_map: "foldE (\<lambda>s x. f s (h x)) s xs = foldE f s (map h xs)"
  by (induction xs arbitrary: s) (auto split: sum.splits)

lemma foldE_append:
  "foldE f s (xs @ ys) = bindE (foldE f s xs) (\<lambda>s'. foldE f s' ys)"
  by (induction xs arbitrary: s) (auto simp: bindE_def split: sum.splits)

lemma foldE_concat:
  "foldE (\<lambda>s x. foldE f s (h x)) s xs = foldE f s (concat (map h xs))"
  by (induction xs arbitrary: s) (auto simp: foldE_append bindE_def split: sum.splits)

lemma add_edge_reachable:
  assumes "reachable g" "edge_guard g u v i"
  shows "\<exists>g'. add_edge g u v i = Ok g'"
proof -
  have "registered g u" "registered g v" using assms(2) by (simp_all add: edge_guard_def)
  then obtain d e where "map_of (adj_out g) u = Some d" "map_of (adj_in g) v = Some e"
    using reachable_adj_keys[OF assms(1), of u] reachable_adj_keys[OF assms(1), of v]
    by (auto simp: in_keys_map_of)
  then show ?thesis using add_edge_guarded[OF assms(2)] by blast
qed

lemma edge_guard_cong:
  "nodes g' = nodes g \<Longrightarrow> hypernodes g' = hypernodes g \<Longrightarrow> edge_guard g' = edge_guard g"
  by (simp add: edge_guard_def registered_def fun_eq_iff)

lemma edges_between_add_edge:
  assumes "add_edge g u v i = Ok g'"
  shows "edges_between g' x y =
         edges_between g x y @ (if x = u \<and> y = v then [payload i] else [])"
  using add_edge_Ok_lookup_out[OF assms, of x y] by (auto simp: edges_between_def)

lemma add_edges_char:
  assumes "reachable g" "list_all (\<lambda>(u, v, i). edge_guard g u v i) es"
  shows "\<exists>g'. add_edges g es = Inr g' \<and> reachable g' \<and> nodes g' = nodes g \<and>
           hypernodes g' = hypernodes g \<and>
           (\<forall>x y. edges_between g' x y =
              edges_between g x y @ map (\<lambda>(u, v, i). payload i) (filter (\<lambda>(u, v, i). u = x \<and> v = y) es))"
  using assms
proof (induction es arbitrary: g)
  case Nil
  then show ?case by (simp add: add_edges_def)
next
  case (Cons e es)
  obtain u v i where e: "e = (u, v, i)" by (cases e)
  have G: "edge_guard g u v i" using Cons.prems(2) e by simp
  obtain g1 where g1: "add_edge g u v i = Ok g1" using add_edge_reachable[OF Cons.prems(1) G] by blast
  have r1: "reachable g1" using r_edge[OF Cons.prems(1) g1] .
  have f1: "nodes g1 = nodes g" "hypernodes g1 = hypernodes g"
    using add_edge_Ok_fields(1,2)[OF g1] by simp_all
  have "list_all (\<lambda>(u, v, i). edge_guard g1 u v i) es"
    using Cons.prems(2) edge_guard_cong[OF f1] by simp
  from Cons.IH[OF r1 this] obtain g' where g':
    "add_edges g1 es = Inr g'" "reachable g'" "nodes g' = nodes g1" "hypernodes g' = hypernodes g1"
    "\<forall>x y. edges_between g' x y =
       edges_between g1 x y @ map (\<lambda>(u, v, i). payload i) (filter (\<lambda>(u, v, i). u = x \<and> v = y) es)"
    by blast
  have "add_edges g (e # es) = Inr g'"
    using g1 g'(1) by (simp add: add_edges_def e result_def)
  moreover have "\<forall>x y. edges_between g' x y =
       edges_between g x y @ map (\<lambda>(u, v, i). payload i) (filter (\<lambda>(u, v, i). u = x \<and> v = y) (e # es))"
    using g'(5) by (simp add: e edges_between_add_edge[OF g1])
  ultimately show ?case using g'(2,3,4) f1 by auto
qed

lemma record_reply_closed:
  "record_reply uts ex b ut =
     Inr (case reply_of uts ex ut of
            None \<Rightarrow> b
          | Some (r, target) \<Rightarrow>
              b\<lparr>reply_edges := reply_edges b @ [(utt_id ut, r)],
                speaker_to_reply_tos := dd_append (speaker_to_reply_tos b) (user ut) r,
                speaker_target_pairs :=
                  set_add (speaker_target_pairs b) (user ut, user target, timestamp ut)\<rparr>)"
proof (cases "reply_to ut")
  case None
  then show ?thesis by (simp add: record_reply_def reply_of_def)
next
  case (Some r)
  show ?thesis
  proof (cases "map_of uts r")
    case None
    then have "r \<notin> set (keys uts)" by (simp add: map_of_eq_None_iff)
    then show ?thesis using Some None by (simp add: record_reply_def reply_of_def)
  next
    case (Some target)
    then have "r \<in> set (keys uts)" by (simp add: in_keys_map_of)
    then show ?thesis using \<open>reply_to ut = Some r\<close> Some
      by (simp add: record_reply_def reply_of_def Let_def bindE_def getitem_def dd_append_def)
  qed
qed

lemma node_step_closed: "node_step uts ex b ut = Inr (node_pure uts ex b ut)"
proof (cases "included ex ut")
  case False
  then show ?thesis by (simp add: node_step_def node_pure_def included_def)
next
  case True
  then have i: "Some (utt_id ut) \<noteq> ex" by (simp add: included_def)
  show ?thesis
  proof (cases "reply_of uts ex ut")
    case None
    then show ?thesis using True i
      by (simp add: node_step_def node_pure_def record_reply_closed bindE_def result_def
          add_node_def Let_def dd_append_def ds_add_def)
  next
    case (Some p)
    obtain r target where p: "p = (r, target)" by (cases p)
    show ?thesis using True i Some p
      by (simp add: node_step_def node_pure_def record_reply_closed bindE_def result_def
          add_node_def Let_def dd_append_def ds_add_def)
  qed
qed

lemma foldE_pure: "(\<And>s x. f s x = Inr (h s x)) \<Longrightarrow> foldE f s xs = Inr (foldl h s xs)"
  by (induction xs arbitrary: s) auto

lemma first_loop: "foldE (node_step uts ex) b us = Inr (foldl (node_pure uts ex) b us)"
  by (rule foldE_pure) (rule node_step_closed)

lemma first_loop_reply_edges:
  "reply_edges (foldl (node_pure uts ex) b us) =
     reply_edges b @ map (\<lambda>(ut, r, target). (utt_id ut, r)) (replies uts ex us)"
  by (induction us arbitrary: b) (auto simp: node_pure_def replies_def split: option.splits)

lemma first_loop_pairs:
  "speaker_target_pairs (foldl (node_pure uts ex) b us) =
     foldl set_add (speaker_target_pairs b)
       (map (\<lambda>(ut, r, target). (user ut, user target, timestamp ut)) (replies uts ex us))"
  by (induction us arbitrary: b) (auto simp: node_pure_def replies_def split: option.splits)

lemma flat_simps [simp]: "flat [] = []" "flat ((k, xs) # s) = map (Pair k) xs @ flat s"
  by (simp_all add: flat_def)

lemma set_flat_map_entry:
  "k \<in> fst ` set t \<Longrightarrow>
   set (flat (AList.map_entry k (\<lambda>l. l @ [x]) t)) = insert (k, x) (set (flat t))"
proof (induction t)
  case Nil
  then show ?case by simp
next
  case (Cons p t)
  obtain k' xs where p: "p = (k', xs)" by (cases p)
  show ?case
  proof (cases "k' = k")
    case True
    then show ?thesis by (simp add: p)
  next
    case False
    then have "k \<in> fst ` set t" using Cons.prems p by auto
    from Cons.IH[OF this] False show ?thesis by (auto simp: p)
  qed
qed

lemma set_flat_update_empty:
  "k \<notin> fst ` set s \<Longrightarrow> set (flat (AList.update k [] s)) = set (flat s)"
proof (induction s)
  case Nil
  then show ?case by simp
next
  case (Cons p s)
  obtain k' xs where p: "p = (k', xs)" by (cases p)
  from Cons p show ?case by auto
qed

lemma set_flat_dd_append: "set (flat (dd_append s k x)) = insert (k, x) (set (flat s))"
proof (cases "k \<in> fst ` set s")
  case True
  then show ?thesis using set_flat_map_entry[of k s x] by (simp add: dd_append_def)
next
  case False
  have "k \<in> fst ` set (AList.update k [] s)" by (simp add: AList.dom_update)
  from set_flat_map_entry[OF this, of x] set_flat_update_empty[OF False] False
  show ?thesis by (simp add: dd_append_def)
qed

lemma keys_dd_append: "fst ` set (dd_append s k x) = insert k (fst ` set s)"
  by (simp add: dd_append_def AList.dom_map_entry AList.dom_update insert_absorb)

lemma keys_ds_add: "fst ` set (ds_add s k x) = insert k (fst ` set s)"
  by (simp add: ds_add_def AList.dom_map_entry AList.dom_update insert_absorb)

lemma replies_Cons:
  "replies uts ex (ut # us) =
     (if included ex ut
      then (case reply_of uts ex ut of None \<Rightarrow> [] | Some (r, target) \<Rightarrow> [(ut, r, target)])
      else []) @ replies uts ex us"
  by (simp add: replies_def)

lemma replies_Nil: "replies uts ex [] = []"
  by (simp add: replies_def)

lemma first_loop_reply_tos:
  "set (flat (speaker_to_reply_tos (foldl (node_pure uts ex) b us))) =
     set (flat (speaker_to_reply_tos b)) \<union>
     (\<lambda>(ut, r, target). (user ut, r)) ` set (replies uts ex us)"
proof (induction us arbitrary: b)
  case Nil
  then show ?case by (simp add: replies_Nil)
next
  case (Cons ut us)
  have "speaker_to_reply_tos (node_pure uts ex b ut) =
      (if included ex ut then (case reply_of uts ex ut of None \<Rightarrow> speaker_to_reply_tos b
            | Some (r, target) \<Rightarrow> dd_append (speaker_to_reply_tos b) (user ut) r)
       else speaker_to_reply_tos b)"
    by (simp add: node_pure_def)
  note step = this
  note IH = Cons.IH[of "node_pure uts ex b ut"]
  show ?case
  proof (cases "included ex ut")
    case False
    then show ?thesis using IH step by (simp add: replies_Cons)
  next
    case True
    show ?thesis
    proof (cases "reply_of uts ex ut")
      case None
      then show ?thesis using IH step True by (simp add: replies_Cons)
    next
      case (Some p)
      obtain r target where p: "p = (r, target)" by (cases p)
      show ?thesis using IH step True Some p
        by (simp add: replies_Cons set_flat_dd_append)
    qed
  qed
qed

lemma first_loop_usernames:
  "fst ` set (username_to_utt_ids (foldl (node_pure uts ex) b us)) =
     fst ` set (username_to_utt_ids b) \<union> user ` set (filter (included ex) us)"
proof (induction us arbitrary: b)
  case Nil
  then show ?case by simp
next
  case (Cons ut us)
  have "username_to_utt_ids (node_pure uts ex b ut) =
      (if included ex ut then ds_add (username_to_utt_ids b) (user ut) (utt_id ut)
       else username_to_utt_ids b)"
    by (simp add: node_pure_def)
  then show ?case
    using Cons.IH[of "node_pure uts ex b ut"]
    by (auto simp: keys_ds_add)
qed

lemma no_edges_update_empty:
  "no_edges g \<Longrightarrow> adj_out g' = AList.update u [] (adj_out g) \<Longrightarrow> no_edges g'"
  by (simp add: no_edges_def lookup2_update_empty)

lemma node_pure_graph:
  "included ex ut \<Longrightarrow>
   add_node (graph b) (Msg (utt_id ut)) (Some (attrs ut)) = Ok (graph (node_pure uts ex b ut))"
  by (simp add: node_pure_def add_node_def)

lemma node_pure_graph_skip: "\<not> included ex ut \<Longrightarrow> graph (node_pure uts ex b ut) = graph b"
  by (simp add: node_pure_def)

lemma first_loop_graph:
  assumes "reachable (graph b)"
  shows "reachable (graph (foldl (node_pure uts ex) b us)) \<and>
         hypernodes (graph (foldl (node_pure uts ex) b us)) = hypernodes (graph b) \<and>
         fst ` set (nodes (graph (foldl (node_pure uts ex) b us))) =
           fst ` set (nodes (graph b)) \<union> Msg ` utt_id ` set (filter (included ex) us) \<and>
         (no_edges (graph b) \<longrightarrow> no_edges (graph (foldl (node_pure uts ex) b us)))"
  using assms
proof (induction us arbitrary: b)
  case Nil
  then show ?case by simp
next
  case (Cons ut us)
  let ?b = "node_pure uts ex b ut"
  show ?case
  proof (cases "included ex ut")
    case False
    have g: "graph ?b = graph b" using node_pure_graph_skip[OF False] .
    have "reachable (graph ?b)" using Cons.prems g by simp
    from Cons.IH[OF this] False g show ?thesis by simp
  next
    case True
    note ok = node_pure_graph[OF True, of b uts]
    have r: "reachable (graph ?b)" using r_node[OF Cons.prems ok] .
    have f: "hypernodes (graph ?b) = hypernodes (graph b)"
      "fst ` set (nodes (graph ?b)) = insert (Msg (utt_id ut)) (fst ` set (nodes (graph b)))"
      using add_node_OkD(3,4)[OF ok] by (simp_all add: AList.dom_update)
    have n: "no_edges (graph b) \<longrightarrow> no_edges (graph ?b)"
      using no_edges_update_empty[OF _ add_node_OkD(1)[OF ok]] by blast
    from Cons.IH[OF r] f n True show ?thesis by auto
  qed
qed

lemma add_hypernodes_char:
  assumes "reachable g"
  shows "\<exists>g'. foldE (\<lambda>g (u, ids). result (add_hypernode g (User u) (map Msg ids) None)) g n = Inr g' \<and>
           reachable g' \<and> nodes g' = nodes g \<and>
           fst ` set (hypernodes g') = fst ` set (hypernodes g) \<union> User ` fst ` set n \<and>
           (no_edges g \<longrightarrow> no_edges g')"
  using assms
proof (induction n arbitrary: g)
  case Nil
  then show ?case by simp
next
  case (Cons p n)
  obtain u ids where p: "p = (u, ids)" by (cases p)
  obtain g1 where ok: "add_hypernode g (User u) (map Msg ids) None = Ok g1"
    by (simp add: add_hypernode_def)
  have r: "reachable g1" using r_hypernode[OF Cons.prems ok] .
  have f: "nodes g1 = nodes g"
    "fst ` set (hypernodes g1) = insert (User u) (fst ` set (hypernodes g))"
    using add_hypernode_OkD(3,4)[OF ok] by (simp_all add: AList.dom_update)
  have n: "no_edges g \<longrightarrow> no_edges g1"
    using no_edges_update_empty[OF _ add_hypernode_OkD(1)[OF ok]] by blast
  from Cons.IH[OF r] obtain g' where g':
    "foldE (\<lambda>g (u, ids). result (add_hypernode g (User u) (map Msg ids) None)) g1 n = Inr g'"
    "reachable g'" "nodes g' = nodes g1"
    "fst ` set (hypernodes g') = fst ` set (hypernodes g1) \<union> User ` fst ` set n"
    "no_edges g1 \<longrightarrow> no_edges g'"
    by blast
  have "foldE (\<lambda>g (u, ids). result (add_hypernode g (User u) (map Msg ids) None)) g (p # n) = Inr g'"
    using ok g'(1) by (simp add: p result_def)
  then show ?case using g'(2-5) f n by (auto simp: p)
qed

lemma replies_iff:
  "(ut, r, target) \<in> set (replies uts ex us) \<longleftrightarrow>
     ut \<in> set us \<and> included ex ut \<and> reply_to ut = Some r \<and> Some r \<noteq> ex \<and>
     map_of uts r = Some target"
  by (auto simp: replies_def reply_of_def split: option.splits if_splits)

lemma wf_uts_target:
  assumes "wf_uts uts" "map_of uts r = Some target"
  shows "utt_id target = r" and "target \<in> snd ` set uts"
proof -
  have m: "(r, target) \<in> set uts" using assms(2) by (rule map_of_SomeD)
  then show "target \<in> snd ` set uts" by force
  show "utt_id target = r" using assms(1) m by (auto simp: wf_uts_def list_all_iff)
qed

lemma add_edges_Nil: "add_edges g [] = Inr g"
  by (simp add: add_edges_def)

lemma add_edges_Cons:
  "add_edges g ((u, v, i) # es) = bindE (result (add_edge g u v i)) (\<lambda>g'. add_edges g' es)"
  by (simp add: add_edges_def bindE_def split: sum.splits)

lemma add_edges_append:
  "add_edges g (xs @ ys) = bindE (add_edges g xs) (\<lambda>g'. add_edges g' ys)"
  by (simp add: add_edges_def foldE_append)

lemma phase3_eq:
  "foldE (\<lambda>g (u, v). result (add_edge g (Msg u) (Msg v) None)) g xs =
   add_edges g (map (\<lambda>(u, v). (Msg u, Msg v, None)) xs)"
  by (induction xs arbitrary: g) (auto simp: add_edges_Nil add_edges_Cons bindE_def split: sum.splits)

lemma phase4_inner:
  "foldE (\<lambda>g r. result (add_edge g (User u) (Msg r) None)) g rs =
   add_edges g (map (\<lambda>r. (User u, Msg r, None)) rs)"
  by (induction rs arbitrary: g) (auto simp: add_edges_Nil add_edges_Cons bindE_def split: sum.splits)

lemma concat_reply_tos:
  "concat (map (\<lambda>(u, rs). map (\<lambda>r. (User u, Msg r, None)) rs) s) =
   map (\<lambda>(u, r). (User u, Msg r, None)) (flat s)"
  by (induction s) auto

lemma phase4_eq:
  "foldE (\<lambda>g (u, reply_tos). foldE (\<lambda>g r. result (add_edge g (User u) (Msg r) None)) g reply_tos) g s =
   add_edges g (map (\<lambda>(u, r). (User u, Msg r, None)) (flat s))"
proof -
  have e: "(\<lambda>g (u, reply_tos). foldE (\<lambda>g r. result (add_edge g (User u) (Msg r) None)) g reply_tos) =
      (\<lambda>g x. foldE (\<lambda>g (u, v, i). result (add_edge g u v i)) g
                 ((\<lambda>(u, rs). map (\<lambda>r. (User u, Msg r, None)) rs) x))"
    by (auto simp: fun_eq_iff phase4_inner add_edges_def)
  show ?thesis
    unfolding e foldE_concat concat_reply_tos by (simp add: add_edges_def)
qed

lemma phase5_eq:
  "foldE (\<lambda>g (u, v, t). result (add_edge g (User u) (User v) (Some [(''timestamp'', PInt t)]))) g xs =
   add_edges g (map (\<lambda>(u, v, t). (User u, User v, Some [(''timestamp'', PInt t)])) xs)"
  by (induction xs arbitrary: g) (auto simp: add_edges_Nil add_edges_Cons bindE_def split: sum.splits)

lemma set_pyset_aux: "set (foldl set_add acc xs) = set acc \<union> set xs"
  by (induction xs arbitrary: acc) (auto simp: set_add_def)

lemma distinct_pyset_aux: "distinct acc \<Longrightarrow> distinct (foldl set_add acc xs)"
  by (induction xs arbitrary: acc) (auto simp: set_add_def)

lemma set_pyset: "set (pyset xs) = set xs"
  by (simp add: pyset_def set_pyset_aux)

lemma distinct_pyset: "distinct (pyset xs)"
  by (simp add: pyset_def distinct_pyset_aux)

lemma no_edges_between: "no_edges g \<Longrightarrow> edges_between g x y = []"
  by (simp add: no_edges_def edges_between_def)

lemma filter_users_phase3:
  "filter (\<lambda>(u, v, i). u = User a \<and> v = User b) (map (\<lambda>(u, v). (Msg u, Msg v, None)) xs) = []"
  by (induction xs) auto

lemma filter_users_phase4:
  "filter (\<lambda>(u, v, i). u = User a \<and> v = User b) (map (\<lambda>(u, r). (User u, Msg r, None)) xs) = []"
  by (induction xs) auto

lemma filter_users_phase5:
  "map (\<lambda>(u, v, i). payload i)
     (filter (\<lambda>(u, v, i). u = User a \<and> v = User b)
        (map (\<lambda>(u, v, t). (User u, User v, Some [(''timestamp'', PInt t)])) xs)) =
   map (\<lambda>(u, v, t). stamp t) (filter (\<lambda>(u, v, t). u = a \<and> v = b) xs)"
  by (induction xs) (auto simp: payload_def stamp_def)

lemma build_char:
  assumes wf: "wf_uts uts"
  shows "\<exists>g. build_hypergraph uts ex = Inr g \<and> reachable g \<and>
     fst ` set (nodes g) = Msg ` utt_id ` {ut \<in> snd ` set uts. included ex ut} \<and>
     fst ` set (hypernodes g) = User ` user ` {ut \<in> snd ` set uts. included ex ut} \<and>
     (\<forall>a b. edges_between g (User a) (User b) =
        map (\<lambda>(u, v, t). stamp t) (filter (\<lambda>(u, v, t). u = a \<and> v = b) (pyset (reply_triples uts ex))))"
proof -
  define us where "us = sort_key timestamp (map snd uts)"
  define b where "b = foldl (node_pure uts ex) new_builder us"
  define R where "R = replies uts ex us"
  define inc where "inc = {ut \<in> snd ` set uts. included ex ut}"
  have set_us: "set us = snd ` set uts" by (simp add: us_def)
  have inc: "{x \<in> set us. included ex x} = inc" by (auto simp: inc_def set_us)
  have loop: "foldE (node_step uts ex) new_builder us = Inr b"
    by (simp add: first_loop b_def)
  have re: "reply_edges b = map (\<lambda>(ut, r, target). (utt_id ut, r)) R"
    by (simp add: b_def R_def first_loop_reply_edges new_builder_def)
  have pa: "speaker_target_pairs b = pyset (reply_triples uts ex)"
    by (simp add: b_def first_loop_pairs new_builder_def pyset_def reply_triples_def us_def)
  have rt: "set (flat (speaker_to_reply_tos b)) = (\<lambda>(ut, r, target). (user ut, r)) ` set R"
    by (simp add: b_def R_def first_loop_reply_tos new_builder_def)
  have un: "fst ` set (username_to_utt_ids b) = user ` inc"
    by (simp add: b_def first_loop_usernames new_builder_def inc)
  have r0: "reachable (graph (new_builder :: ('a, 'b) builder))"
    by (simp add: new_builder_def r_init)
  have g0: "reachable (graph b)" "hypernodes (graph b) = []"
    "fst ` set (nodes (graph b)) = Msg ` utt_id ` inc" "no_edges (graph b)"
    using first_loop_graph[OF r0, of uts ex us]
    by (simp_all add: b_def inc new_builder_def Hypergraph_def no_edges_def lookup2_def)
  obtain g1 where g1:
    "foldE (\<lambda>g (u, ids). result (add_hypernode g (User u) (map Msg ids) None)) (graph b)
       (username_to_utt_ids b) = Inr g1"
    "reachable g1" "nodes g1 = nodes (graph b)"
    "fst ` set (hypernodes g1) = fst ` set (hypernodes (graph b)) \<union> User ` fst ` set (username_to_utt_ids b)"
    "no_edges g1"
    using add_hypernodes_char[OF g0(1), of "username_to_utt_ids b"] g0(4) by blast
  have N: "fst ` set (nodes g1) = Msg ` utt_id ` inc" using g1(3) g0(3) by simp
  have H: "fst ` set (hypernodes g1) = User ` user ` inc" using g1(4) g0(2) un by simp
  have Rprops: "ut \<in> inc \<and> target \<in> inc \<and> utt_id target = r"
    if "(ut, r, target) \<in> set R" for ut r target
  proof -
    have p: "ut \<in> set us" "included ex ut" "Some r \<noteq> ex" "map_of uts r = Some target"
      using that by (simp_all add: R_def replies_iff)
    have t: "utt_id target = r" "target \<in> snd ` set uts" using wf_uts_target[OF wf p(4)] by simp_all
    have "included ex target" using t(1) p(3) by (simp add: included_def)
    then show ?thesis using p t by (simp add: inc_def set_us)
  qed
  have guard_nodes: "edge_guard g (Msg (utt_id x)) (Msg (utt_id y)) None"
    if "x \<in> inc" "y \<in> inc" "nodes g = nodes g1" "hypernodes g = hypernodes g1" for g x y
    using that N H by (auto simp: edge_guard_def registered_def)
  have guard_mixed: "edge_guard g (User (user x)) (Msg (utt_id y)) None"
    if "x \<in> inc" "y \<in> inc" "nodes g = nodes g1" "hypernodes g = hypernodes g1" for g x y
    using that N H by (auto simp: edge_guard_def registered_def)
  have guard_users: "edge_guard g (User (user x)) (User (user y)) (Some [(''timestamp'', PInt t)])"
    if "x \<in> inc" "y \<in> inc" "nodes g = nodes g1" "hypernodes g = hypernodes g1" for g x y t
    using that N H by (auto simp: edge_guard_def registered_def)
  let ?es3 = "map (\<lambda>(u, v). (Msg u, Msg v, None)) (reply_edges b)"
  let ?es4 = "map (\<lambda>(u, r). (User u, Msg r, None)) (flat (speaker_to_reply_tos b))"
  let ?es5 = "map (\<lambda>(u, v, t). (User u, User v, Some [(''timestamp'', PInt t)])) (speaker_target_pairs b)"
  have G3: "list_all (\<lambda>(u, v, i). edge_guard g1 u v i) ?es3"
    unfolding re list_all_iff using Rprops guard_nodes[of _ _ g1] by fastforce
  obtain g2 where g2: "add_edges g1 ?es3 = Inr g2" "reachable g2" "nodes g2 = nodes g1"
    "hypernodes g2 = hypernodes g1"
    "\<forall>x y. edges_between g2 x y = edges_between g1 x y @
        map (\<lambda>(u, v, i). payload i) (filter (\<lambda>(u, v, i). u = x \<and> v = y) ?es3)"
    using add_edges_char[OF g1(2) G3] by blast
  have G4: "list_all (\<lambda>(u, v, i). edge_guard g2 u v i) ?es4"
  proof -
    have "edge_guard g2 (User u) (Msg r) None" if m: "(u, r) \<in> set (flat (speaker_to_reply_tos b))" for u r
    proof -
      have "(u, r) \<in> (\<lambda>(ut, r, target). (user ut, r)) ` set R" using m rt by simp
      then obtain ut target where "(ut, r, target) \<in> set R" "u = user ut" by auto
      then show ?thesis using Rprops[of ut r target] guard_mixed[of ut target g2] g2(3,4) by auto
    qed
    then show ?thesis unfolding list_all_iff by auto
  qed
  obtain g3 where g3: "add_edges g2 ?es4 = Inr g3" "reachable g3" "nodes g3 = nodes g2"
    "hypernodes g3 = hypernodes g2"
    "\<forall>x y. edges_between g3 x y = edges_between g2 x y @
        map (\<lambda>(u, v, i). payload i) (filter (\<lambda>(u, v, i). u = x \<and> v = y) ?es4)"
    using add_edges_char[OF g2(2) G4] by blast
  have G5: "list_all (\<lambda>(u, v, i). edge_guard g3 u v i) ?es5"
  proof -
    have "edge_guard g3 (User u) (User v) (Some [(''timestamp'', PInt t)])"
      if m: "(u, v, t) \<in> set (speaker_target_pairs b)" for u v t
    proof -
      have "(u, v, t) \<in> (\<lambda>(ut, r, target). (user ut, user target, timestamp ut)) ` set R"
        using m by (simp add: pa set_pyset reply_triples_def R_def us_def)
      then obtain ut r target where "(ut, r, target) \<in> set R" "u = user ut" "v = user target"
        by auto
      then show ?thesis
        using Rprops[of ut r target] guard_users[of ut target g3] g2(3,4) g3(3,4) by auto
    qed
    then show ?thesis unfolding list_all_iff by auto
  qed
  obtain g4 where g4: "add_edges g3 ?es5 = Inr g4" "reachable g4" "nodes g4 = nodes g3"
    "hypernodes g4 = hypernodes g3"
    "\<forall>x y. edges_between g4 x y = edges_between g3 x y @
        map (\<lambda>(u, v, i). payload i) (filter (\<lambda>(u, v, i). u = x \<and> v = y) ?es5)"
    using add_edges_char[OF g3(2) G5] by blast
  have build: "build_hypergraph uts ex = Inr g4"
    unfolding build_hypergraph_def us_def[symmetric] loop
    by (simp add: bindE_def g1(1) phase3_eq g2(1) phase4_eq g3(1) phase5_eq g4(1))
  have E: "edges_between g4 (User a) (User b') =
        map (\<lambda>(u, v, t). stamp t) (filter (\<lambda>(u, v, t). u = a \<and> v = b') (pyset (reply_triples uts ex)))"
    for a b'
  proof -
    have e2: "edges_between g2 (User a) (User b') = []"
      by (simp only: g2(5)[rule_format] filter_users_phase3 no_edges_between[OF g1(5)]
          list.map append_Nil)
    have e3: "edges_between g3 (User a) (User b') = []"
      by (simp only: g3(5)[rule_format] filter_users_phase4 e2 list.map append_Nil)
    show ?thesis
      by (simp only: g4(5)[rule_format] filter_users_phase5 e3 append_Nil pa)
  qed
  show ?thesis
    using build g4(2) E N H g2(3,4) g3(3,4) g4(3,4) unfolding inc_def by auto
qed

lemma in_reply_entry:
  "t \<in> set (case reply_to ut of None \<Rightarrow> []
       | Some r \<Rightarrow> (case map_of uts r of None \<Rightarrow> []
            | Some target \<Rightarrow> if C r target then [timestamp ut] else [])) \<longleftrightarrow>
   (\<exists>r target. reply_to ut = Some r \<and> map_of uts r = Some target \<and> C r target \<and>
      timestamp ut = t)"
proof (cases "reply_to ut")
  case None
  then show ?thesis by simp
next
  case (Some r)
  then show ?thesis by (cases "map_of uts r") auto
qed

lemma in_reply_times:
  "t \<in> set (reply_times uts ex a b) \<longleftrightarrow>
      (\<exists>ut r target. ut \<in> snd ` set uts \<and> reply_to ut = Some r \<and> map_of uts r = Some target \<and>
          Some (utt_id ut) \<noteq> ex \<and> Some r \<noteq> ex \<and> user ut = a \<and> user target = b \<and>
          timestamp ut = t)"
proof
  assume "t \<in> set (reply_times uts ex a b)"
  then obtain k ut where m: "(k, ut) \<in> set uts" and
    "t \<in> set (case reply_to ut of None \<Rightarrow> []
       | Some r \<Rightarrow> (case map_of uts r of None \<Rightarrow> []
            | Some target \<Rightarrow> if Some (utt_id ut) \<noteq> ex \<and> Some r \<noteq> ex \<and>
                   user ut = a \<and> user target = b then [timestamp ut] else []))"
    unfolding reply_times_def by auto
  then obtain r target where "reply_to ut = Some r" "map_of uts r = Some target"
    "Some (utt_id ut) \<noteq> ex \<and> Some r \<noteq> ex \<and> user ut = a \<and> user target = b" "timestamp ut = t"
    unfolding in_reply_entry by blast
  moreover have "ut \<in> snd ` set uts" using m by force
  ultimately show "\<exists>ut r target. ut \<in> snd ` set uts \<and> reply_to ut = Some r \<and>
          map_of uts r = Some target \<and>
          Some (utt_id ut) \<noteq> ex \<and> Some r \<noteq> ex \<and> user ut = a \<and> user target = b \<and>
          timestamp ut = t" by blast
next
  assume "\<exists>ut r target. ut \<in> snd ` set uts \<and> reply_to ut = Some r \<and>
          map_of uts r = Some target \<and>
          Some (utt_id ut) \<noteq> ex \<and> Some r \<noteq> ex \<and> user ut = a \<and> user target = b \<and>
          timestamp ut = t"
  then obtain ut r target where h: "ut \<in> snd ` set uts" "reply_to ut = Some r"
    "map_of uts r = Some target"
    "Some (utt_id ut) \<noteq> ex \<and> Some r \<noteq> ex \<and> user ut = a \<and> user target = b" "timestamp ut = t"
    by blast
  obtain k where m: "(k, ut) \<in> set uts" using h(1) by auto
  have "t \<in> set (case reply_to ut of None \<Rightarrow> []
       | Some r \<Rightarrow> (case map_of uts r of None \<Rightarrow> []
            | Some target \<Rightarrow> if Some (utt_id ut) \<noteq> ex \<and> Some r \<noteq> ex \<and>
                   user ut = a \<and> user target = b then [timestamp ut] else []))"
    unfolding in_reply_entry using h(2-5) by blast
  then show "t \<in> set (reply_times uts ex a b)"
    unfolding reply_times_def using m by force
qed

lemma in_reply_triples:
  "(a, b, t) \<in> set (reply_triples uts ex) \<longleftrightarrow>
      (\<exists>ut r target. ut \<in> snd ` set uts \<and> reply_to ut = Some r \<and> map_of uts r = Some target \<and>
          Some (utt_id ut) \<noteq> ex \<and> Some r \<noteq> ex \<and> user ut = a \<and> user target = b \<and>
          timestamp ut = t)"
proof
  assume "(a, b, t) \<in> set (reply_triples uts ex)"
  then obtain x where x: "x \<in> set (replies uts ex (sort_key timestamp (map snd uts)))"
    "(case x of (ut, r, target) \<Rightarrow> (user ut, user target, timestamp ut)) = (a, b, t)"
    unfolding reply_triples_def by auto
  obtain ut r target where xe: "x = (ut, r, target)" by (cases x)
  have "ut \<in> snd ` set uts \<and> included ex ut \<and> reply_to ut = Some r \<and> Some r \<noteq> ex \<and>
     map_of uts r = Some target"
    using x(1) unfolding xe replies_iff by simp
  moreover have "user ut = a" "user target = b" "timestamp ut = t" using x(2) xe by simp_all
  ultimately show "\<exists>ut r target. ut \<in> snd ` set uts \<and> reply_to ut = Some r \<and>
          map_of uts r = Some target \<and>
          Some (utt_id ut) \<noteq> ex \<and> Some r \<noteq> ex \<and> user ut = a \<and> user target = b \<and>
          timestamp ut = t"
    unfolding included_def by blast
next
  assume "\<exists>ut r target. ut \<in> snd ` set uts \<and> reply_to ut = Some r \<and>
          map_of uts r = Some target \<and>
          Some (utt_id ut) \<noteq> ex \<and> Some r \<noteq> ex \<and> user ut = a \<and> user target = b \<and>
          timestamp ut = t"
  then obtain ut r target where h: "ut \<in> snd ` set uts" "reply_to ut = Some r"
    "map_of uts r = Some target" "Some (utt_id ut) \<noteq> ex" "Some r \<noteq> ex"
    "user ut = a" "user target = b" "timestamp ut = t"
    by blast
  have "(ut, r, target) \<in> set (replies uts ex (sort_key timestamp (map snd uts)))"
    unfolding replies_iff using h(1-5) by (simp add: included_def)
  then have "(case (ut, r, target) of (ut, r, target) \<Rightarrow> (user ut, user target, timestamp ut))
      \<in> set (reply_triples uts ex)"
    unfolding reply_triples_def set_map by (rule imageI)
  then show "(a, b, t) \<in> set (reply_triples uts ex)" using h(6-8) by simp
qed

lemma set_reply_times:
  "set (reply_times uts ex a b) = {t. (a, b, t) \<in> set (reply_triples uts ex)}"
  by (simp add: set_eq_iff in_reply_times in_reply_triples)

lemma stamps_distinct:
  assumes "distinct xs"
  shows "distinct (map (\<lambda>(u, v, t). stamp t) (filter (\<lambda>(u, v, t). u = a \<and> v = b) xs))"
proof -
  have "inj_on (\<lambda>(u, v, t). stamp t) (set (filter (\<lambda>(u, v, t). u = a \<and> v = b) xs))"
    by (auto simp: inj_on_def stamp_def)
  then show ?thesis using assms by (simp add: distinct_map)
qed

lemma stamps_set:
  "set (map (\<lambda>(u, v, t). stamp t) (filter (\<lambda>(u, v, t). u = a \<and> v = b) xs)) =
   stamp ` {t. (a, b, t) \<in> set xs}"
  by (induction xs) auto

lemma concatE_Inr:
  "(\<And>x. x \<in> set xs \<Longrightarrow> f x = Inr (h x)) \<Longrightarrow> concatE f xs = Inr (concat (map h xs))"
  by (induction xs) auto

lemma dyadic_inner:
  assumes "map_of (adj_out g) C1 = Some dout" "C2 \<in> fst ` set dout"
    and reg: "C2 \<in> fst ` set (hypernodes g) \<Longrightarrow> \<exists>d. map_of (adj_out g) C2 = Some d"
  shows "(if C2 \<in> set (keys (hypernodes g)) then
             bindE (getitem (adj_out g) C2) (\<lambda>dback.
               if C1 \<in> set (keys dback) then
                 bindE (getitem (adj_out g) C1) (\<lambda>d1. bindE (getitem d1 C2) (\<lambda>e1s.
                   concatE (\<lambda>e1.
                     bindE (getitem (adj_out g) C2) (\<lambda>d2. bindE (getitem d2 C1) (\<lambda>e2s.
                       Inr (map (\<lambda>e2. (C1, C2, e1, e2)) e2s))))
                     e1s))
               else Inr [])
           else Inr []) = Inr (dyadic_pairs g C1 C2)"
proof (cases "C2 \<in> fst ` set (hypernodes g)")
  case False
  then show ?thesis by (simp add: dyadic_pairs_def)
next
  case True
  then obtain dback where dback: "map_of (adj_out g) C2 = Some dback" using reg by blast
  obtain e1s where e1s: "map_of dout C2 = Some e1s"
    using assms(2) by (auto simp: in_keys_map_of)
  have od: "out_dict g C2 = dback" by (simp add: out_dict_def dback)
  have eb1: "edges_between g C1 C2 = e1s"
    by (simp add: edges_between_def lookup2_def assms(1) e1s)
  show ?thesis
  proof (cases "C1 \<in> fst ` set dback")
    case False
    then show ?thesis using True by (simp add: dyadic_pairs_def od bindE_def getitem_def dback)
  next
    case c1: True
    then obtain e2s where e2s: "map_of dback C1 = Some e2s" by (auto simp: in_keys_map_of)
    have eb2: "edges_between g C2 C1 = e2s"
      by (simp add: edges_between_def lookup2_def dback e2s)
    have inner: "concatE (\<lambda>e1.
                     bindE (getitem (adj_out g) C2) (\<lambda>d2. bindE (getitem d2 C1) (\<lambda>e2s.
                       Inr (map (\<lambda>e2. (C1, C2, e1, e2)) e2s)))) e1s =
        Inr (concat (map (\<lambda>e1. map (\<lambda>e2. (C1, C2, e1, e2)) e2s) e1s))"
      by (rule concatE_Inr) (simp add: bindE_def getitem_def dback e2s)
    have "dyadic_pairs g C1 C2 = concat (map (\<lambda>e1. map (\<lambda>e2. (C1, C2, e1, e2)) e2s) e1s)"
      using True c1 by (simp add: dyadic_pairs_def od eb1 eb2)
    then show ?thesis
      using True c1 inner by (simp add: bindE_def getitem_def dback assms(1) e1s)
  qed
qed

lemma dyadic_closed:
  assumes "reachable g"
  shows "dyadic_interaction_motifs g = Inr (dyadic_pure g)"
  unfolding dyadic_interaction_motifs_def dyadic_pure_def
proof (rule concatE_Inr)
  fix C1 assume "C1 \<in> set (keys (hypernodes g))"
  then have "registered g C1" by (simp add: registered_def)
  then obtain dout where dout: "map_of (adj_out g) C1 = Some dout"
    using reachable_adj_keys[OF assms, of C1] by (auto simp: in_keys_map_of)
  have reg: "\<exists>d. map_of (adj_out g) C2 = Some d" if "C2 \<in> fst ` set (hypernodes g)" for C2
    using reachable_adj_keys[OF assms, of C2] that by (auto simp: in_keys_map_of registered_def)
  have od: "out_dict g C1 = dout" by (simp add: out_dict_def dout)
  have "concatE (\<lambda>C2.
           if C2 \<in> set (keys (hypernodes g)) then
             bindE (getitem (adj_out g) C2) (\<lambda>dback.
               if C1 \<in> set (keys dback) then
                 bindE (getitem (adj_out g) C1) (\<lambda>d1. bindE (getitem d1 C2) (\<lambda>e1s.
                   concatE (\<lambda>e1.
                     bindE (getitem (adj_out g) C2) (\<lambda>d2. bindE (getitem d2 C1) (\<lambda>e2s.
                       Inr (map (\<lambda>e2. (C1, C2, e1, e2)) e2s))))
                     e1s))
               else Inr [])
           else Inr [])
         (keys dout) = Inr (concat (map (dyadic_pairs g C1) (keys dout)))"
  proof (rule concatE_Inr)
    fix C2 assume "C2 \<in> set (keys dout)"
    then have "C2 \<in> fst ` set dout" by simp
    from dyadic_inner[OF dout this reg] show "(if C2 \<in> set (keys (hypernodes g)) then
             bindE (getitem (adj_out g) C2) (\<lambda>dback.
               if C1 \<in> set (keys dback) then
                 bindE (getitem (adj_out g) C1) (\<lambda>d1. bindE (getitem d1 C2) (\<lambda>e1s.
                   concatE (\<lambda>e1.
                     bindE (getitem (adj_out g) C2) (\<lambda>d2. bindE (getitem d2 C1) (\<lambda>e2s.
                       Inr (map (\<lambda>e2. (C1, C2, e1, e2)) e2s))))
                     e1s))
               else Inr [])
           else Inr []) = Inr (dyadic_pairs g C1 C2)" by blast
  qed
  then show "bindE (getitem (adj_out g) C1) (\<lambda>dout.
         concatE (\<lambda>C2.
           if C2 \<in> set (keys (hypernodes g)) then
             bindE (getitem (adj_out g) C2) (\<lambda>dback.
               if C1 \<in> set (keys dback) then
                 bindE (getitem (adj_out g) C1) (\<lambda>d1. bindE (getitem d1 C2) (\<lambda>e1s.
                   concatE (\<lambda>e1.
                     bindE (getitem (adj_out g) C2) (\<lambda>d2. bindE (getitem d2 C1) (\<lambda>e2s.
                       Inr (map (\<lambda>e2. (C1, C2, e1, e2)) e2s))))
                     e1s))
               else Inr [])
           else Inr [])
         (keys dout)) = Inr (concat (map (dyadic_pairs g C1) (keys (out_dict g C1))))"
    by (simp only: bindE_def getitem_def dout od option.case sum.case)
qed

lemma concat_map_none:
  "a \<notin> set xs \<Longrightarrow> concat (map (\<lambda>x. if x = a then F x else []) xs) = []"
  by (induction xs) auto

lemma concat_map_single:
  "distinct xs \<Longrightarrow> a \<in> set xs \<Longrightarrow> concat (map (\<lambda>x. if x = a then F x else []) xs) = F a"
  by (induction xs) (auto simp: concat_map_none)

lemma both_are_simp [simp]: "both_are A (X, Y, e1, e2) \<longleftrightarrow> X = A \<and> Y = A"
  by (simp add: both_are_def)

lemma both_are_lambda: "(\<lambda>(C1, C2, e1, e2). C1 = A \<and> C2 = A) = both_are A"
  by (simp add: fun_eq_iff both_are_def)

lemma filter_pairs_row:
  "filter (both_are A) (map (\<lambda>e2. (X, Y, e1, e2)) ys) =
   (if X = A \<and> Y = A then map (\<lambda>e2. (X, Y, e1, e2)) ys else [])"
  by (induction ys) auto

lemma filter_pairs_list:
  "filter (both_are A) (concat (map (\<lambda>e1. map (\<lambda>e2. (X, Y, e1, e2)) ys) xs)) =
   (if X = A \<and> Y = A then concat (map (\<lambda>e1. map (\<lambda>e2. (X, Y, e1, e2)) ys) xs) else [])"
  by (induction xs) (simp_all add: filter_pairs_row)

lemma filter_dyadic_pairs:
  "filter (both_are A) (dyadic_pairs g X Y) = (if X = A \<and> Y = A then dyadic_pairs g X Y else [])"
proof (cases "Y \<in> set (keys (hypernodes g)) \<and> X \<in> set (keys (out_dict g Y))")
  case True
  then have "dyadic_pairs g X Y =
      concat (map (\<lambda>e1. map (\<lambda>e2. (X, Y, e1, e2)) (edges_between g Y X)) (edges_between g X Y))"
    unfolding dyadic_pairs_def by (rule if_P)
  then show ?thesis by (simp only: filter_pairs_list)
next
  case False
  then have "dyadic_pairs g X Y = []" unfolding dyadic_pairs_def by (rule if_not_P)
  then show ?thesis by auto
qed

lemma filter_dyadic_row:
  "filter (both_are A) (concat (map (dyadic_pairs g X) ks)) =
   (if X = A then concat (map (\<lambda>Y. if Y = A then dyadic_pairs g A Y else []) ks) else [])"
  by (induction ks) (simp_all add: filter_dyadic_pairs)

lemma filter_dyadic_all:
  "filter (both_are A) (concat (map (\<lambda>X. concat (map (dyadic_pairs g X) (ks X))) Xs)) =
   concat (map (\<lambda>X. if X = A
                     then concat (map (\<lambda>Y. if Y = A then dyadic_pairs g A Y else []) (ks X))
                     else []) Xs)"
  by (induction Xs) (simp_all add: filter_dyadic_row)

lemma length_pairs_list:
  "length (concat (map (\<lambda>e1. map (f e1) ys) xs)) = length xs * length ys"
  by (induction xs) auto

lemma dyadic_self_loops:
  assumes r: "reachable g" and A: "A \<in> set (keys (hypernodes g))"
    and es: "lookup2 (adj_out g) A A = Some es"
  shows "filter (both_are A) (dyadic_pure g) =
         concat (map (\<lambda>e1. map (\<lambda>e2. (A, A, e1, e2)) es) es)"
proof -
  have dg: "distinct_graph g" using reachable_distinct[OF r] .
  obtain d where d: "map_of (adj_out g) A = Some d" "map_of d A = Some es"
    using es by (auto simp: lookup2_def split: option.splits)
  have od: "out_dict g A = d" by (simp add: out_dict_def d)
  have dd: "distinct (keys d)" using dg d(1) by (auto simp: distinct_graph_def inner_distinct_def)
  have Ad: "A \<in> set (keys d)" using d(2) by (simp add: in_keys_map_of)
  have dh: "distinct (keys (hypernodes g))" using dg by (simp add: distinct_graph_def)
  have eb: "edges_between g A A = es" by (simp add: edges_between_def es)
  have pairs: "dyadic_pairs g A A = concat (map (\<lambda>e1. map (\<lambda>e2. (A, A, e1, e2)) es) es)"
    using A Ad by (simp add: dyadic_pairs_def od eb)
  have row: "concat (map (\<lambda>Y. if Y = A then dyadic_pairs g A Y else []) (keys d)) =
      dyadic_pairs g A A"
    using concat_map_single[OF dd Ad, of "dyadic_pairs g A"] .
  have "filter (both_are A) (dyadic_pure g) =
      concat (map (\<lambda>X. if X = A then
          concat (map (\<lambda>Y. if Y = A then dyadic_pairs g A Y else []) (keys (out_dict g X))) else [])
        (keys (hypernodes g)))"
    unfolding dyadic_pure_def by (rule filter_dyadic_all)
  also have "\<dots> = concat (map (\<lambda>Y. if Y = A then dyadic_pairs g A Y else []) (keys (out_dict g A)))"
    using concat_map_single[OF dh A,
        of "\<lambda>X. concat (map (\<lambda>Y. if Y = A then dyadic_pairs g A Y else []) (keys (out_dict g X)))"] .
  finally show ?thesis by (simp only: od row pairs)
qed

section \<open>Example graphs\<close>

lemma g_one_step: "add_node Hypergraph 1 None = Ok g_one"
  by (simp add: add_node_def Hypergraph_def g_one_def)

lemma g_two_step: "add_node g_one 2 None = Ok g_two"
  by (simp add: add_node_def g_one_def g_two_def)

lemma g_edge_step: "add_edge g_two 1 2 None = Ok g_edge"
  by (simp add: add_edge_def registered_def g_two_def g_edge_def append_at_def)

lemma g_again_step: "add_node g_edge 1 None = Ok g_again"
  by (simp add: add_node_def g_edge_def g_again_def)

lemma reachable_g_two: "reachable g_two"
  using r_node[OF r_node[OF r_init g_one_step] g_two_step] .

lemma reachable_g_edge: "reachable g_edge"
  using r_edge[OF reachable_g_two g_edge_step] .

lemma reachable_g_again: "reachable g_again"
  using r_node[OF reachable_g_edge g_again_step] .

lemma reachable_h_two: "reachable h_two"
proof -
  have 1: "add_hypernode Hypergraph 10 [] None = Ok
     \<lparr>nodes = [], hypernodes = [(10::nat, [])], adj_out = [(10, [])], adj_in = [(10, [])]\<rparr>"
    by (simp add: add_hypernode_def Hypergraph_def pyset_def)
  have 2: "add_hypernode
     \<lparr>nodes = [], hypernodes = [(10::nat, [])], adj_out = [(10, [])], adj_in = [(10, [])]\<rparr>
     20 [] None = Ok h_two"
    by (simp add: add_hypernode_def h_two_def pyset_def)
  show ?thesis using r_hypernode[OF r_hypernode[OF r_init 1] 2] .
qed

lemma reachable_fresh_g_edge: "reachable_fresh g_edge"
proof -
  have a: "\<not> registered (Hypergraph :: nat hypergraph) 1" by (simp add: registered_def Hypergraph_def)
  have b: "\<not> registered g_one 2" by (simp add: registered_def g_one_def)
  show ?thesis
    using f_edge[OF f_node[OF f_node[OF f_init a g_one_step] b g_two_step] g_edge_step] .
qed

section \<open>Claims about the graph store\<close>

text \<open>
  Claim C5. When at least one of \<open>u\<close>, \<open>v\<close> is registered neither as a node nor as a
  hypernode, \<^verbatim>\<open>add_edge(u, v, payload)\<close> fails on one of its first two assertions, and the
  graph at the moment of the exception is the graph before the call: nothing was mutated.
  This holds for every graph value, reachable or not, and for every payload.
\<close>

theorem add_edge_unregistered_endpoint:
  "\<not> registered g u \<or> \<not> registered g v \<Longrightarrow> add_edge g u v info = Raise AssertionError g"
  by (auto simp: add_edge_unreg_u add_edge_unreg_v)

theorem add_edge_unregistered_endpoint_witness:
  "registered g_edge 1 \<and> \<not> registered g_edge 7 \<and>
   add_edge g_edge 1 7 (Some [(''timestamp'', PInt 3)]) = Raise AssertionError g_edge"
proof -
  have h: "registered g_edge 1" "\<not> registered g_edge 7"
    by (simp_all add: registered_def g_edge_def)
  from add_edge_unregistered_endpoint[of g_edge 1 7] h show ?thesis by blast
qed

text \<open>
  Claim C2, as stated, does not hold: \<^verbatim>\<open>add_node\<close> has no check for an identity that is
  already present. In the graph left by \<^verbatim>\<open>add_node(1); add_node(2); add_edge(1, 2)\<close>, a
  second \<^verbatim>\<open>add_node(1)\<close> returns normally, and the edge list that was stored under
  \<^verbatim>\<open>adj_out[1][2]\<close> is gone.
\<close>

theorem add_node_again_counterexample:
  "reachable g_edge \<and> registered g_edge 1 \<and> add_node g_edge 1 None = Ok g_again \<and>
   lookup2 (adj_out g_edge) 1 2 = Some [[]] \<and> lookup2 (adj_out g_again) 1 2 = None"
proof -
  have "registered g_edge 1" by (simp add: registered_def g_edge_def)
  moreover have "lookup2 (adj_out g_edge) 1 2 = Some [[]]" by (simp add: g_edge_def lookup2_def)
  moreover have "lookup2 (adj_out g_again) 1 2 = None" by (simp add: g_again_def lookup2_def)
  ultimately show ?thesis using reachable_g_edge g_again_step by blast
qed

text \<open>
  Claim C2, amended. For every graph and every identity \<open>u\<close> already present as a node or
  as a hypernode, \<^verbatim>\<open>add_node(u, metadata)\<close> returns normally. It stores the new metadata
  under \<open>u\<close> (the empty dictionary when none is given), keeps the position of \<open>u\<close> among
  the nodes when it was a node and appends it otherwise, resets \<^verbatim>\<open>adj_out[u]\<close> and
  \<^verbatim>\<open>adj_in[u]\<close> to the empty dictionary, and leaves the hypernodes and the entries of
  every other identity as they were.
\<close>

theorem add_node_again_replaces:
  assumes "registered g u"
  shows "\<exists>g'. add_node g u info = Ok g' \<and>
           map_of (nodes g') u = Some (case info of None \<Rightarrow> [] | Some i \<Rightarrow> i) \<and>
           keys (nodes g') = keys (nodes g) @ (if u \<in> set (keys (nodes g)) then [] else [u]) \<and>
           map_of (adj_out g') u = Some [] \<and> map_of (adj_in g') u = Some [] \<and>
           hypernodes g' = hypernodes g \<and>
           (\<forall>w. w \<noteq> u \<longrightarrow> map_of (nodes g') w = map_of (nodes g) w \<and>
                 map_of (adj_out g') w = map_of (adj_out g) w \<and>
                 map_of (adj_in g') w = map_of (adj_in g) w)"
  by (simp add: add_node_def AList.update_conv' AList.update_keys)

theorem add_node_again_replaces_witness:
  "registered g_edge 1 \<and>
   (\<exists>g'. add_node g_edge 1 (Some [(''text'', PStr ''hi'')]) = Ok g' \<and>
           map_of (nodes g') 1 = Some [(''text'', PStr ''hi'')] \<and>
           keys (nodes g') = [1, 2] \<and>
           map_of (adj_out g') 1 = Some [] \<and> map_of (adj_in g') 1 = Some [] \<and>
           hypernodes g' = [] \<and> map_of (adj_in g') 2 = Some [(1, [[]])])"
proof -
  have h: "registered g_edge 1" by (simp add: registered_def g_edge_def)
  from add_node_again_replaces[OF h, of "Some [(''text'', PStr ''hi'')]"]
  obtain g' where g': "add_node g_edge 1 (Some [(''text'', PStr ''hi'')]) = Ok g'"
    "map_of (nodes g') 1 = Some [(''text'', PStr ''hi'')]"
    "keys (nodes g') = keys (nodes g_edge) @ (if 1 \<in> set (keys (nodes g_edge)) then [] else [1])"
    "map_of (adj_out g') 1 = Some []" "map_of (adj_in g') 1 = Some []"
    "hypernodes g' = hypernodes g_edge"
    "\<forall>w. w \<noteq> 1 \<longrightarrow> map_of (nodes g') w = map_of (nodes g_edge) w \<and>
                 map_of (adj_out g') w = map_of (adj_out g_edge) w \<and>
                 map_of (adj_in g') w = map_of (adj_in g_edge) w"
    by auto
  have "map_of (adj_in g') 2 = map_of (adj_in g_edge) 2" using g'(7) by simp
  then show ?thesis using h g' by (simp add: g_edge_def)
qed

text \<open>
  Claim C9. In a graph built by calls that returned, none of which gave \<^verbatim>\<open>add_node\<close> or
  \<^verbatim>\<open>add_hypernode\<close> an identity already present, \<^verbatim>\<open>adj_out[u][v]\<close> and \<^verbatim>\<open>adj_in[v][u]\<close>
  are both absent, or both present and the same list of payloads in the same order.
\<close>

theorem adjacency_lists_mirror:
  "reachable_fresh g \<Longrightarrow> lookup2 (adj_out g) u v = lookup2 (adj_in g) v u"
  using reachable_fresh_inv[of g] by (simp add: symmetric_adj_def)

theorem adjacency_lists_mirror_witness:
  "reachable_fresh g_edge \<and> lookup2 (adj_out g_edge) 1 2 = Some [[]] \<and>
   lookup2 (adj_in g_edge) 2 1 = Some [[]]"
proof -
  have "lookup2 (adj_out g_edge) 1 2 = Some [[]]" by (simp add: lookup2_def g_edge_def)
  with adjacency_lists_mirror[OF reachable_fresh_g_edge, of 1 2] reachable_fresh_g_edge
  show ?thesis by simp
qed

text \<open>
  Claim C4. In a graph built through the three mutators, with \<open>C1\<close> and \<open>C2\<close> both
  hypernodes: \<^verbatim>\<open>add_edge(C1, C2)\<close> with the payload omitted raises (an
  \<^verbatim>\<open>AttributeError\<close>, from \<^verbatim>\<open>info.keys()\<close> on \<^verbatim>\<open>None\<close>), with the empty payload it fails
  its assertion, and in both cases the graph is untouched; with a non-empty payload \<open>p\<close>
  it returns, and \<open>p\<close> is then the last edge instance listed under \<open>C2\<close> by
  \<^verbatim>\<open>outgoing_hypernodes(C1)\<close> and under \<open>C1\<close> by \<^verbatim>\<open>incoming_hypernodes(C2)\<close>.
\<close>

theorem hyperedge_payload:
  assumes "reachable g" and "C1 \<in> set (keys (hypernodes g))" and "C2 \<in> set (keys (hypernodes g))"
    and "p \<noteq> []"
  shows "add_edge g C1 C2 None = Raise AttributeError g \<and>
         add_edge g C1 C2 (Some []) = Raise AssertionError g \<and>
         (\<exists>g'. add_edge g C1 C2 (Some p) = Ok g' \<and>
            (\<exists>d es. outgoing_hypernodes g' C1 = Inr d \<and> map_of d C2 = Some (es @ [p])) \<and>
            (\<exists>d es. incoming_hypernodes g' C2 = Inr d \<and> map_of d C1 = Some (es @ [p])))"
proof -
  have reg: "registered g C1" "registered g C2" using assms(2,3) by (simp_all add: registered_def)
  have G: "edge_guard g C1 C2 (Some p)" using reg assms(4) by (simp add: edge_guard_def)
  obtain d0 where d0: "map_of (adj_out g) C1 = Some d0"
    using reachable_adj_keys[OF assms(1) reg(1)] by (auto simp: in_keys_map_of)
  obtain e0 where e0: "map_of (adj_in g) C2 = Some e0"
    using reachable_adj_keys[OF assms(1) reg(2)] by (auto simp: in_keys_map_of)
  define g' where "g' = g\<lparr>adj_out := append_at (ensure (adj_out g) C1 C2) C1 C2 (payload (Some p)),
            adj_in := append_at (ensure (adj_in g) C2 C1) C2 C1 (payload (Some p))\<rparr>"
  have ok: "add_edge g C1 C2 (Some p) = Ok g'"
    using add_edge_guarded[OF G d0 e0] by (simp add: g'_def)
  have dg: "distinct_graph g'" using reachable_distinct[OF r_edge[OF assms(1) ok]] .
  have hyp: "hypernodes g' = hypernodes g" using add_edge_Ok_fields(2)[OF ok] .
  have lo: "lookup2 (adj_out g') C1 C2 =
      Some ((case lookup2 (adj_out g) C1 C2 of None \<Rightarrow> [] | Some l \<Rightarrow> l) @ [p])"
    using add_edge_Ok_lookup_out[OF ok, of C1 C2] by (simp add: payload_def)
  have li: "lookup2 (adj_in g') C2 C1 =
      Some ((case lookup2 (adj_in g) C2 C1 of None \<Rightarrow> [] | Some l \<Rightarrow> l) @ [p])"
    using add_edge_Ok_lookup_in[OF ok, of C2 C1] by (simp add: payload_def)
  obtain d1 where d1: "map_of (adj_out g') C1 = Some d1" "map_of d1 C2 =
      Some ((case lookup2 (adj_out g) C1 C2 of None \<Rightarrow> [] | Some l \<Rightarrow> l) @ [p])"
    using lo by (auto simp: lookup2_def split: option.splits)
  obtain e1 where e1: "map_of (adj_in g') C2 = Some e1" "map_of e1 C1 =
      Some ((case lookup2 (adj_in g) C2 C1 of None \<Rightarrow> [] | Some l \<Rightarrow> l) @ [p])"
    using li by (auto simp: lookup2_def split: option.splits)
  have dd: "distinct (keys d1)" "distinct (keys e1)"
    using dg d1(1) e1(1) by (auto simp: distinct_graph_def inner_distinct_def)
  have out: "\<exists>d es. outgoing_hypernodes g' C1 = Inr d \<and> map_of d C2 = Some (es @ [p])"
    using d1 dd(1) assms(3)
    by (simp add: outgoing_hypernodes_def hyp map_of_dict_of_filter)
  have inc: "\<exists>d es. incoming_hypernodes g' C2 = Inr d \<and> map_of d C1 = Some (es @ [p])"
    using e1 dd(2) assms(2)
    by (simp add: incoming_hypernodes_def hyp map_of_dict_of_filter)
  show ?thesis
    using add_edge_hyper_None[OF assms(2,3)] add_edge_hyper_empty[OF assms(2,3)] ok out inc
    by blast
qed

theorem hyperedge_payload_witness:
  "reachable h_two \<and> 10 \<in> set (keys (hypernodes h_two)) \<and> 20 \<in> set (keys (hypernodes h_two)) \<and>
   [(''timestamp'', PInt 5)] \<noteq> [] \<and>
   add_edge h_two 10 20 None = Raise AttributeError h_two \<and>
   add_edge h_two 10 20 (Some []) = Raise AssertionError h_two \<and>
   (\<exists>g'. add_edge h_two 10 20 (Some [(''timestamp'', PInt 5)]) = Ok g' \<and>
      (\<exists>d es. outgoing_hypernodes g' 10 = Inr d \<and> map_of d 20 = Some (es @ [[(''timestamp'', PInt 5)]])) \<and>
      (\<exists>d es. incoming_hypernodes g' 20 = Inr d \<and> map_of d 10 = Some (es @ [[(''timestamp'', PInt 5)]])))"
proof -
  have a: "10 \<in> set (keys (hypernodes h_two))" and b: "20 \<in> set (keys (hypernodes h_two))"
    by (simp_all add: h_two_def)
  have c: "[(''timestamp'', PInt 5)] \<noteq> []" by simp
  from hyperedge_payload[OF reachable_h_two a b c] reachable_h_two a b c
  show ?thesis by blast
qed

text \<open>
  Claim C3, as stated, does not hold. \<^verbatim>\<open>add_node(1); add_node(2); add_edge(1, 2)\<close>
  followed by a second \<^verbatim>\<open>add_node(1)\<close> are four calls that return; the last one empties
  \<^verbatim>\<open>adj_out[1]\<close> while \<^verbatim>\<open>adj_in[2]\<close> keeps the edge, so the node-to-node out-degrees
  sum to 0 and the in-degrees to 1.
\<close>

theorem degree_sums_agree_counterexample:
  "reachable g_again \<and> outdegrees g_again False False = Inr [0, 0] \<and>
   indegrees g_again False False = Inr [0, 1]"
proof -
  have "outdegrees g_again False False = Inr [0, 0]"
    by (simp add: outdegrees_def tier_def g_again_def)
  moreover have "indegrees g_again False False = Inr [0, 1]"
    by (simp add: indegrees_def tier_def g_again_def)
  ultimately show ?thesis using reachable_g_again by blast
qed

text \<open>
  Claim C3, amended. For every graph built by calls of \<^verbatim>\<open>add_node\<close>, \<^verbatim>\<open>add_hypernode\<close>
  and \<^verbatim>\<open>add_edge\<close> that returned, in which no identity was inserted twice, and for every
  choice of the two tiers, \<^verbatim>\<open>outdegrees\<close> and \<^verbatim>\<open>indegrees\<close> both return, and the two
  vectors have the same sum.
\<close>

theorem degree_sums_agree:
  assumes "reachable_fresh g"
  shows "\<exists>os is. outdegrees g from_hyper to_hyper = Inr os \<and>
           indegrees g from_hyper to_hyper = Inr is \<and> sum_list os = sum_list is"
proof -
  have r: "reachable g" using reachable_fresh_reachable[OF assms] .
  have sym: "edge_count (adj_out g) u v = edge_count (adj_in g) v u" for u v
    using reachable_fresh_inv[OF assms] by (simp add: symmetric_adj_def edge_count_def)
  obtain os where os: "outdegrees g from_hyper to_hyper = Inr os"
    "sum_list os = (\<Sum>u\<in>set (tier g from_hyper). \<Sum>v\<in>set (tier g to_hyper). edge_count (adj_out g) u v)"
    using degree_sum_out[OF r] by blast
  obtain "is" where "is": "indegrees g from_hyper to_hyper = Inr is"
    "sum_list is = (\<Sum>v\<in>set (tier g to_hyper). \<Sum>u\<in>set (tier g from_hyper). edge_count (adj_in g) v u)"
    using degree_sum_in[OF r] by blast
  have "sum_list os = sum_list is"
    unfolding os(2) "is"(2) sym by (rule sum.swap)
  then show ?thesis using os(1) "is"(1) by blast
qed

theorem degree_sums_agree_witness:
  "reachable_fresh g_edge \<and> outdegrees g_edge False False = Inr [1, 0] \<and>
   indegrees g_edge False False = Inr [0, 1] \<and> sum_list [1, 0 :: nat] = sum_list [0, 1]"
proof -
  have o: "outdegrees g_edge False False = Inr [1, 0]"
    by (simp add: outdegrees_def tier_def g_edge_def)
  have i: "indegrees g_edge False False = Inr [0, 1]"
    by (simp add: indegrees_def tier_def g_edge_def)
  from degree_sums_agree[OF reachable_fresh_g_edge, of False False] o i reachable_fresh_g_edge
  show ?thesis by auto
qed

section \<open>Claims about the graphs of conversations\<close>

lemmas build_defs = build_hypergraph_def node_step_def record_reply_def new_builder_def
  bindE_def getitem_def result_def add_node_def add_hypernode_def add_edge_def registered_def
  append_at_def set_add_def pyset_def Hypergraph_def Let_def

lemma two_speakers_build: "build_hypergraph two_speakers None = Inr two_speakers_graph"
  by (simp add: build_defs two_speakers_def two_speakers_graph_def)

text \<open>
  Claim C1 is not what the code does. \<^verbatim>\<open>outgoing_triad_motifs\<close> pairs all the keys of
  \<^verbatim>\<open>adj_out[C1]\<close>, nodes included. In the graph of the conversation where user 2 answers
  message 1 of user 1, the vertex \<open>User 2\<close> has the out-neighbours \<open>Msg 1\<close> and
  \<open>User 1\<close>, and the enumeration returns one outgoing triad whose \<open>C2\<close> is the node
  \<open>Msg 1\<close>.
\<close>

theorem outgoing_triad_pairs_a_node:
  "make_hypergraph None (Some two_speakers) None = Inr two_speakers_graph \<and>
   outgoing_triad_motifs two_speakers_graph =
     Inr [(User 2, Msg 1, User 1, [], [(''timestamp'', PInt 2)])]"
proof -
  have "outgoing_triad_motifs two_speakers_graph =
     Inr [(User 2, Msg 1, User 1, [], [(''timestamp'', PInt 2)])]"
    by (simp add: outgoing_triad_motifs_def two_speakers_graph_def bindE_def getitem_def)
  then show ?thesis by (simp add: make_hypergraph_def two_speakers_build)
qed

text \<open>
  Claim C7. A collection of two messages \<open>m1\<close> and \<open>m2\<close> by one author, where \<open>m2\<close>
  replies to \<open>m1\<close> and \<open>m1\<close> replies to neither (it has no reply target, or one outside
  the collection): whatever the order of the two in the dictionary, their timestamps and
  the excluded identity, the builder returns a graph, and \<^verbatim>\<open>reciprocity_motifs\<close> returns
  the empty list on it.
\<close>

theorem reciprocity_single_author:
  assumes id1: "utt_id u1 = m1" and id2: "utt_id u2 = m2" and ne: "m1 \<noteq> m2"
    and same: "user u2 = user u1"
    and r1: "reply_to u1 \<noteq> Some m1" "reply_to u1 \<noteq> Some m2"
    and r2: "reply_to u2 = Some m1"
    and uts: "uts = [(m1, u1), (m2, u2)] \<or> uts = [(m2, u2), (m1, u1)]"
  shows "\<exists>g. make_hypergraph corpus (Some uts) exclude_id = Inr g \<and> reciprocity_motifs g = Inr []"
proof -
  have ne': "m2 \<noteq> m1" using ne by simp
  have r1': "reply_to u1 = None \<or> (\<exists>r. reply_to u1 = Some r \<and> r \<noteq> m1 \<and> r \<noteq> m2)"
    using r1 by (cases "reply_to u1") auto
  note facts = id1 id2 ne ne' same r2
  consider (a) "exclude_id = Some m1" | (b) "exclude_id = Some m2"
    | (c) "exclude_id \<noteq> Some m1" "exclude_id \<noteq> Some m2" by blast
  then show ?thesis
  proof cases
    case a
    from uts r1' show ?thesis
      by (auto simp: make_hypergraph_def build_defs reciprocity_motifs_def facts a)
  next
    case b
    from uts r1' show ?thesis
      by (auto simp: make_hypergraph_def build_defs reciprocity_motifs_def facts b)
  next
    case c
    from uts r1' show ?thesis
      by (auto simp: make_hypergraph_def build_defs reciprocity_motifs_def facts c)
  qed
qed

theorem reciprocity_single_author_witness:
  "utt_id first_message = 1 \<and> utt_id own_reply = 2 \<and> (1::nat) \<noteq> 2 \<and>
   user own_reply = user first_message \<and>
   reply_to first_message \<noteq> Some 1 \<and> reply_to first_message \<noteq> Some 2 \<and>
   reply_to own_reply = Some 1 \<and>
   (\<exists>g. make_hypergraph None (Some [(1, first_message), (2, own_reply)]) None = Inr g \<and>
        reciprocity_motifs g = Inr [])"
proof -
  have h: "utt_id first_message = 1" "utt_id own_reply = 2" "(1::nat) \<noteq> 2"
    "user own_reply = user first_message"
    "reply_to first_message \<noteq> Some 1" "reply_to first_message \<noteq> Some 2"
    "reply_to own_reply = Some 1"
    by (simp_all add: first_message_def own_reply_def)
  have u: "[(1::nat, first_message), (2, own_reply)] = [(1, first_message), (2, own_reply)] \<or>
           [(1::nat, first_message), (2, own_reply)] = [(2, own_reply), (1, first_message)]"
    by simp
  from reciprocity_single_author[OF h u, of None None] h show ?thesis by blast
qed

text \<open>
  Claim C8. For every well-formed message collection and every excluded identity the
  builder returns a graph, and between every ordered pair of authors \<open>a\<close>, \<open>b\<close> the
  edge instances from \<open>User a\<close> to \<open>User b\<close> are pairwise different and are exactly the
  payloads \<^verbatim>\<open>{'timestamp': t}\<close> for the timestamps \<open>t\<close> of the replies by \<open>a\<close> to messages
  of \<open>b\<close>: replies with the same timestamp give one edge instance, replies with
  different timestamps give one instance each, and the number of instances is the number
  of distinct timestamps.
\<close>

theorem hyperedge_per_timestamp:
  assumes "wf_uts uts"
  shows "\<exists>g. make_hypergraph corpus (Some uts) exclude_id = Inr g \<and>
     (\<forall>a b. distinct (edges_between g (User a) (User b)) \<and>
        set (edges_between g (User a) (User b)) =
          (\<lambda>t. [(''timestamp'', PInt t)]) ` set (reply_times uts exclude_id a b) \<and>
        length (edges_between g (User a) (User b)) = card (set (reply_times uts exclude_id a b)))"
proof -
  obtain g where g: "build_hypergraph uts exclude_id = Inr g"
    "\<forall>a b. edges_between g (User a) (User b) =
        map (\<lambda>(u, v, t). stamp t)
          (filter (\<lambda>(u, v, t). u = a \<and> v = b) (pyset (reply_triples uts exclude_id)))"
    using build_char[OF assms, of exclude_id] by (elim exE conjE) simp
  have st: "(\<lambda>t. [(''timestamp'', PInt t)]) = stamp" by (simp add: fun_eq_iff stamp_def)
  have inj: "inj stamp" by (simp add: inj_on_def stamp_def)
  have d: "distinct (edges_between g (User a) (User b))" for a b
    by (simp only: g(2)[rule_format] stamps_distinct[OF distinct_pyset])
  have s: "set (edges_between g (User a) (User b)) = stamp ` set (reply_times uts exclude_id a b)"
    for a b
    by (simp only: g(2)[rule_format] stamps_set set_pyset set_reply_times)
  have l: "length (edges_between g (User a) (User b)) = card (set (reply_times uts exclude_id a b))"
    for a b
  proof -
    have "length (edges_between g (User a) (User b)) = card (set (edges_between g (User a) (User b)))"
      using distinct_card[OF d[of a b]] by simp
    also have "\<dots> = card (stamp ` set (reply_times uts exclude_id a b))" by (simp only: s)
    also have "\<dots> = card (set (reply_times uts exclude_id a b))"
      by (rule card_image) (rule inj_on_subset[OF inj subset_UNIV])
    finally show ?thesis .
  qed
  have m: "make_hypergraph corpus (Some uts) exclude_id = Inr g"
    using g(1) by (simp add: make_hypergraph_def)
  have "\<forall>a b. distinct (edges_between g (User a) (User b)) \<and>
        set (edges_between g (User a) (User b)) =
          (\<lambda>t. [(''timestamp'', PInt t)]) ` set (reply_times uts exclude_id a b) \<and>
        length (edges_between g (User a) (User b)) = card (set (reply_times uts exclude_id a b))"
    unfolding st using d s l by (intro allI conjI)
  with m show ?thesis by blast
qed

theorem hyperedge_per_timestamp_witness:
  "wf_uts busy_thread \<and> reply_times busy_thread None 2 1 = [5, 5, 7] \<and>
   (\<exists>g. make_hypergraph None (Some busy_thread) None = Inr g \<and>
      distinct (edges_between g (User 2) (User 1)) \<and>
      set (edges_between g (User 2) (User 1)) =
        {[(''timestamp'', PInt 5)], [(''timestamp'', PInt 7)]} \<and>
      length (edges_between g (User 2) (User 1)) = 2)"
proof -
  have wf: "wf_uts busy_thread" by (simp add: wf_uts_def busy_thread_def)
  have rt: "reply_times busy_thread None 2 1 = [5, 5, 7]"
    by (simp add: reply_times_def busy_thread_def)
  from hyperedge_per_timestamp[OF wf, of None None] obtain g where
    g: "make_hypergraph None (Some busy_thread) None = Inr g"
    and a: "\<forall>a b. distinct (edges_between g (User a) (User b)) \<and>
        set (edges_between g (User a) (User b)) =
          (\<lambda>t. [(''timestamp'', PInt t)]) ` set (reply_times busy_thread None a b) \<and>
        length (edges_between g (User a) (User b)) = card (set (reply_times busy_thread None a b))"
    by (elim exE conjE)
  from a[rule_format, of 2 1, unfolded rt] have
    "distinct (edges_between g (User 2) (User 1))"
    "set (edges_between g (User 2) (User 1)) = {[(''timestamp'', PInt 5)], [(''timestamp'', PInt 7)]}"
    "length (edges_between g (User 2) (User 1)) = 2"
    by simp_all
  with g wf rt show ?thesis by blast
qed

text \<open>
  Claim C10. In a well-formed message collection, let a message that is not excluded
  reply to a message of the same author that is in the collection and not excluded. Then
  the builder returns a graph in which that author's hypernode has an edge to itself,
  carrying the timestamp of the reply among its instances \<open>es\<close>, and
  \<^verbatim>\<open>dyadic_interaction_motifs\<close> returns a list whose instances with both hypernodes equal
  to that author are the tuples \<open>(A, A, e1, e2)\<close> for every ordered pair \<open>e1\<close>, \<open>e2\<close> of
  instances in \<open>es\<close>: \<open>length es * length es\<close> of them.
\<close>

theorem self_reply_dyadic:
  assumes wf: "wf_uts uts" and mem: "(k, ut) \<in> set uts"
    and inc: "Some (utt_id ut) \<noteq> exclude_id"
    and rep: "reply_to ut = Some r" and rinc: "Some r \<noteq> exclude_id"
    and tgt: "map_of uts r = Some target" and own: "user target = user ut"
  shows "\<exists>g es ms. make_hypergraph corpus (Some uts) exclude_id = Inr g \<and>
     lookup2 (adj_out g) (User (user ut)) (User (user ut)) = Some es \<and>
     [(''timestamp'', PInt (timestamp ut))] \<in> set es \<and>
     dyadic_interaction_motifs g = Inr ms \<and>
     filter (\<lambda>(C1, C2, e1, e2). C1 = User (user ut) \<and> C2 = User (user ut)) ms =
       concat (map (\<lambda>e1. map (\<lambda>e2. (User (user ut), User (user ut), e1, e2)) es) es) \<and>
     length (filter (\<lambda>(C1, C2, e1, e2). C1 = User (user ut) \<and> C2 = User (user ut)) ms) =
       length es * length es"
proof -
  let ?A = "User (user ut) :: ('a, 'b) vertex"
  obtain g where g: "build_hypergraph uts exclude_id = Inr g" "reachable g"
    "fst ` set (hypernodes g) = User ` user ` {ut \<in> snd ` set uts. included exclude_id ut}"
    "\<forall>a b. edges_between g (User a) (User b) =
        map (\<lambda>(u, v, t). stamp t)
          (filter (\<lambda>(u, v, t). u = a \<and> v = b) (pyset (reply_triples uts exclude_id)))"
    using build_char[OF wf, of exclude_id] by (elim exE conjE) simp
  have ut: "ut \<in> snd ` set uts" using mem by force
  have "(user ut, user ut, timestamp ut) \<in> set (reply_triples uts exclude_id)"
    unfolding in_reply_triples using ut rep tgt inc rinc own by blast
  then have "timestamp ut \<in> {t. (user ut, user ut, t) \<in> set (pyset (reply_triples uts exclude_id))}"
    by (simp add: set_pyset)
  then have "stamp (timestamp ut) \<in> set (edges_between g ?A ?A)"
    by (simp only: g(4)[rule_format] stamps_set) (rule imageI)
  then have m: "[(''timestamp'', PInt (timestamp ut))] \<in> set (edges_between g ?A ?A)"
    by (simp add: stamp_def)
  then obtain es where es: "lookup2 (adj_out g) ?A ?A = Some es" "edges_between g ?A ?A = es"
    by (cases "lookup2 (adj_out g) ?A ?A") (auto simp: edges_between_def)
  have A: "?A \<in> set (keys (hypernodes g))"
    using g(3) ut inc by (auto simp: included_def)
  have f: "filter (\<lambda>(C1, C2, e1, e2). C1 = ?A \<and> C2 = ?A) (dyadic_pure g) =
         concat (map (\<lambda>e1. map (\<lambda>e2. (?A, ?A, e1, e2)) es) es)"
    unfolding both_are_lambda using dyadic_self_loops[OF g(2) A es(1)] .
  have l: "length (filter (\<lambda>(C1, C2, e1, e2). C1 = ?A \<and> C2 = ?A) (dyadic_pure g)) =
      length es * length es"
    unfolding f by (rule length_pairs_list)
  have mk: "make_hypergraph corpus (Some uts) exclude_id = Inr g"
    using g(1) by (simp add: make_hypergraph_def)
  show ?thesis
    using mk es(1) m[unfolded es(2)] dyadic_closed[OF g(2)] f l by blast
qed

theorem self_reply_dyadic_witness:
  "wf_uts self_reply \<and> (2, own_reply) \<in> set self_reply \<and>
   Some (utt_id own_reply) \<noteq> None \<and> reply_to own_reply = Some 1 \<and>
   map_of self_reply 1 = Some first_message \<and> user first_message = user own_reply \<and>
   (\<exists>g es ms. make_hypergraph None (Some self_reply) None = Inr g \<and>
     lookup2 (adj_out g) (User (user own_reply)) (User (user own_reply)) = Some es \<and>
     [(''timestamp'', PInt (timestamp own_reply))] \<in> set es \<and>
     dyadic_interaction_motifs g = Inr ms \<and>
     filter (\<lambda>(C1, C2, e1, e2). C1 = User (user own_reply) \<and> C2 = User (user own_reply)) ms =
       concat (map (\<lambda>e1. map (\<lambda>e2. (User (user own_reply), User (user own_reply), e1, e2)) es) es) \<and>
     length (filter (\<lambda>(C1, C2, e1, e2). C1 = User (user own_reply) \<and> C2 = User (user own_reply)) ms) =
       length es * length es)"
proof -
  have h: "wf_uts self_reply" "(2, own_reply) \<in> set self_reply"
    "Some (utt_id own_reply) \<noteq> None" "reply_to own_reply = Some 1" "Some (1::nat) \<noteq> None"
    "map_of self_reply 1 = Some first_message" "user first_message = user own_reply"
    by (simp_all add: wf_uts_def self_reply_def own_reply_def first_message_def)
  note c = self_reply_dyadic[OF h, of None]
  show ?thesis
    by (intro conjI h(1,2,3,4,6,7) c)
qed

section \<open>Claims about the degree statistics\<close>







lemma second_largest_returns: "1 < length l \<Longrightarrow> \<exists>s. second_largest l = Inr s"
  by (simp add: second_largest_def)



end
